theory Spec2Isabelle
  imports Complex_Main "HOL-Library.Sublist"
begin

section \<open>Text primitives of the host language\<close>

text \<open>
  The card scanner (\<^verbatim>\<open>CardScanner\<close>, functions \<^verbatim>\<open>extractContactInfo\<close> and
  \<^verbatim>\<open>processImage\<close>) is written in TypeScript. A string is modelled as a \<^typ>\<open>string\<close>,
  one \<^typ>\<open>char\<close> per code unit; the model therefore covers the texts whose code units lie
  below 256 (ASCII and the Latin-1 supplement), and \<open>code\<close> reads the code unit.
\<close>

definition code :: "char \<Rightarrow> nat" where
  "code c = of_char c"

text \<open>\<^verbatim>\<open>\d\<close>, \<^verbatim>\<open>[A-Z]\<close>, \<^verbatim>\<open>[a-z]\<close>, \<^verbatim>\<open>[a-zA-Z]\<close>, \<^verbatim>\<open>[a-zA-Z0-9]\<close> and \<^verbatim>\<open>\w\<close>.\<close>

definition isDigit :: "char \<Rightarrow> bool" where
  "isDigit c = (48 \<le> code c \<and> code c \<le> 57)"

definition isUpper :: "char \<Rightarrow> bool" where
  "isUpper c = (65 \<le> code c \<and> code c \<le> 90)"

definition isLower :: "char \<Rightarrow> bool" where
  "isLower c = (97 \<le> code c \<and> code c \<le> 122)"

definition isAlpha :: "char \<Rightarrow> bool" where
  "isAlpha c = (isLower c \<or> isUpper c)"

definition isAlnum :: "char \<Rightarrow> bool" where
  "isAlnum c = (isAlpha c \<or> isDigit c)"

definition isWord :: "char \<Rightarrow> bool" where
  "isWord c = (isAlnum c \<or> c = CHR ''_'')"

text \<open>
  \<^verbatim>\<open>\s\<close>, which is also what \<^verbatim>\<open>trim()\<close> strips: tab, line feed, vertical tab, form feed,
  carriage return, space and the no-break space (the members below 256).
\<close>

definition isSpace :: "char \<Rightarrow> bool" where
  "isSpace c = ((9 \<le> code c \<and> code c \<le> 13) \<or> code c = 32 \<or> code c = 160)"

text \<open>The line terminators, which \<^verbatim>\<open>.\<close> does not match and \<^verbatim>\<open>[\n\r]\<close> does.\<close>

definition isNewline :: "char \<Rightarrow> bool" where
  "isNewline c = (code c = 10 \<or> code c = 13)"

text \<open>
  \<^verbatim>\<open>toLowerCase()\<close> on one code unit: \<^verbatim>\<open>A-Z\<close> and the Latin-1 capitals (all of
  \<^verbatim>\<open>U+00C0..U+00DE\<close> but the multiplication sign) move up by 32.
\<close>

definition toLowerChar :: "char \<Rightarrow> char" where
  "toLowerChar c =
     (if (65 \<le> code c \<and> code c \<le> 90) \<or> (192 \<le> code c \<and> code c \<le> 222 \<and> code c \<noteq> 215)
      then char_of (code c + 32) else c)"

definition toLowerCase :: "string \<Rightarrow> string" where
  "toLowerCase s = map toLowerChar s"

definition trim :: "string \<Rightarrow> string" where
  "trim s = rev (dropWhile isSpace (rev (dropWhile isSpace s)))"

text \<open>\<^verbatim>\<open>s.startsWith(t)\<close>, \<^verbatim>\<open>s.includes(t)\<close> and \<^verbatim>\<open>s.endsWith(t)\<close>.\<close>

fun startsWith :: "string \<Rightarrow> string \<Rightarrow> bool" where
  "startsWith s [] = True"
| "startsWith [] (d # t) = False"
| "startsWith (c # s) (d # t) = (c = d \<and> startsWith s t)"

fun includes_js :: "string \<Rightarrow> string \<Rightarrow> bool" where
  "includes_js [] t = (t = [])"
| "includes_js (c # s) t = (startsWith (c # s) t \<or> includes_js s t)"

definition endsWith :: "string \<Rightarrow> string \<Rightarrow> bool" where
  "endsWith s t = startsWith (rev s) (rev t)"

text \<open>
  \<^verbatim>\<open>xs.find((x, index) => p)\<close>: the first element whose callback is true, here together
  with the index it was found at; \<open>None\<close> is \<^verbatim>\<open>undefined\<close>.
\<close>

fun findFrom :: "nat \<Rightarrow> ('a \<Rightarrow> nat \<Rightarrow> bool) \<Rightarrow> 'a list \<Rightarrow> (nat \<times> 'a) option" where
  "findFrom i p [] = None"
| "findFrom i p (x # xs) = (if p x i then Some (i, x) else findFrom (Suc i) p xs)"

definition find_js :: "('a \<Rightarrow> nat \<Rightarrow> bool) \<Rightarrow> 'a list \<Rightarrow> (nat \<times> 'a) option" where
  "find_js p xs = findFrom 0 p xs"

text \<open>\<^verbatim>\<open>xs?.some(p)\<close> on a possibly-null array: \<^verbatim>\<open>undefined\<close> (falsy) on null.\<close>

definition some_opt :: "('a \<Rightarrow> bool) \<Rightarrow> 'a list option \<Rightarrow> bool" where
  "some_opt p xs = (case xs of None \<Rightarrow> False | Some ys \<Rightarrow> list_ex p ys)"

section \<open>Regular expressions\<close>

text \<open>
  The fragment of the regular-expression language the scanner uses: a character class, a
  greedy bounded repetition of a character class, a greedy optional group, sequence,
  alternation and the anchors \<^verbatim>\<open>^\<close> and \<^verbatim>\<open>$\<close>. Capture groups are not observed by
  the program (it reads whole matches only), so a group is its body.
\<close>

datatype rx =
    Eps
  | Bol
  | Eol
  | Ch "char \<Rightarrow> bool"
  | Many "char \<Rightarrow> bool" nat "nat option"
  | Opt rx
  | Seq rx rx
  | Alt rx rx

fun seqs :: "rx list \<Rightarrow> rx" where
  "seqs [] = Eps"
| "seqs [r] = r"
| "seqs (r # rs) = Seq r (seqs rs)"

fun alts :: "rx list \<Rightarrow> rx" where
  "alts [] = Eps"
| "alts [r] = r"
| "alts (r # rs) = Alt r (alts rs)"

text \<open>A literal, and a literal under the \<^verbatim>\<open>i\<close> flag (the pattern's letters are lower case).\<close>

definition lit :: "string \<Rightarrow> rx" where
  "lit s = seqs (map (\<lambda>c. Ch (\<lambda>x. x = c)) s)"

definition liti :: "string \<Rightarrow> rx" where
  "liti s = seqs (map (\<lambda>c. Ch (\<lambda>x. toLowerChar x = c)) s)"

text \<open>
  The backtracking matcher. \<open>m n r s\<close> runs \<open>r\<close> at the suffix \<open>s\<close> of an input of length
  \<open>n\<close> and returns the suffixes left after each way of matching, in the order in which
  the backtracking engine tries them: the left alternative first, the longest repetition
  first, the optional group before its absence. The engine's match is the head.
\<close>

fun m :: "nat \<Rightarrow> rx \<Rightarrow> string \<Rightarrow> string list" where
  "m n Eps s = [s]"
| "m n Bol s = (if length s = n then [s] else [])"
| "m n Eol s = (if s = [] then [s] else [])"
| "m n (Ch p) s = (case s of [] \<Rightarrow> [] | c # cs \<Rightarrow> if p c then [cs] else [])"
| "m n (Many p lo hi) s =
     (let k = length (takeWhile p s);
          k' = (case hi of None \<Rightarrow> k | Some h \<Rightarrow> min k h)
      in map (\<lambda>j. drop j s) (rev [lo..<Suc k']))"
| "m n (Opt r) s = m n r s @ [s]"
| "m n (Seq r1 r2) s = concat (map (m n r2) (m n r1 s))"
| "m n (Alt r1 r2) s = m n r1 s @ m n r2 s"

text \<open>
  \<open>exec\<close> searches for the leftmost position at which the pattern matches, from the
  suffix \<open>s\<close> on; it returns the suffix where the match starts and the suffix where it ends.
\<close>

fun exec :: "nat \<Rightarrow> rx \<Rightarrow> string \<Rightarrow> (string \<times> string) option" where
  "exec n r [] = (case m n r [] of [] \<Rightarrow> None | e # es \<Rightarrow> Some ([], e))"
| "exec n r (c # cs) = (case m n r (c # cs) of [] \<Rightarrow> exec n r cs | e # es \<Rightarrow> Some (c # cs, e))"

definition matched :: "string \<Rightarrow> string \<Rightarrow> string" where
  "matched b e = take (length b - length e) b"

text \<open>\<^verbatim>\<open>re.test(s)\<close> for a pattern without the \<^verbatim>\<open>g\<close> flag.\<close>

definition test :: "rx \<Rightarrow> string \<Rightarrow> bool" where
  "test r s = (exec (length s) r s \<noteq> None)"

text \<open>Every way of matching leaves a suffix of what it started from.\<close>

lemma m_suffix: "e \<in> set (m n r s) \<Longrightarrow> suffix e s"
proof (induction r arbitrary: s e)
  case (Ch p)
  then show ?case by (cases s) (auto split: if_splits simp: suffix_Cons)
next
  case (Many p lo hi)
  then show ?case by (auto simp: Let_def suffix_drop)
next
  case (Seq r1 r2)
  from Seq.prems obtain k where k: "k \<in> set (m n r1 s)" "e \<in> set (m n r2 k)" by auto
  from Seq.IH(1) [OF k(1)] Seq.IH(2) [OF k(2)] show ?case
    by (rule suffix_order.trans [rotated])
qed (auto split: if_splits)

lemma exec_suffix:
  "exec n r s = Some (b, e) \<Longrightarrow> suffix b s \<and> suffix e b \<and> e \<in> set (m n r b)"
proof (induction s)
  case Nil
  show ?case
  proof (cases "m n r []")
    case Nil
    with Nil.prems show ?thesis by simp
  next
    case (Cons e' es)
    then have "e' \<in> set (m n r [])" by simp
    from m_suffix [OF this] Cons Nil.prems show ?thesis by auto
  qed
next
  case (Cons c cs)
  show ?case
  proof (cases "m n r (c # cs)")
    case Nil
    with Cons show ?thesis by (auto simp: suffix_Cons)
  next
    case (Cons e' es)
    then have "e' \<in> set (m n r (c # cs))" by simp
    from m_suffix [OF this] Cons Cons.prems show ?thesis by auto
  qed
qed

lemma exec_length:
  "exec n r s = Some (b, e) \<Longrightarrow> length e \<le> length b \<and> length b \<le> length s"
  by (auto dest!: exec_suffix simp: suffix_length_le)

text \<open>
  \<^verbatim>\<open>s.match(re)\<close> for a pattern with the \<^verbatim>\<open>g\<close> flag: every match from left to right, each
  search starting where the last match ended (one code unit further after an empty
  match); \<^verbatim>\<open>null\<close> when there is none.
\<close>

function matchAll :: "nat \<Rightarrow> rx \<Rightarrow> string \<Rightarrow> string list" where
  "matchAll n r s =
     (case exec n r s of
        None \<Rightarrow> []
      | Some (b, e) \<Rightarrow>
          matched b e #
          (if length e < length b then matchAll n r e
           else (case e of [] \<Rightarrow> [] | c # e' \<Rightarrow> matchAll n r e')))"
  by pat_completeness auto
termination
proof (relation "measure (\<lambda>(n, r, s). length s)")
  show "wf (measure (\<lambda>(n, r, s). length s))" by simp
next
  fix n r s x2 b e
  assume "exec n r s = Some x2" "(b, e) = x2" "length e < length b"
  then show "((n, r, e), (n, r, s)) \<in> measure (\<lambda>(n, r, s). length s)"
    using exec_length [of n r s b e] by auto
next
  fix n r s x2 b e c e'
  assume "exec n r s = Some x2" "(b, e) = x2" "\<not> length e < length b" "e = c # e'"
  then show "((n, r, e'), (n, r, s)) \<in> measure (\<lambda>(n, r, s). length s)"
    using exec_length [of n r s b e] by auto
qed

declare matchAll.simps [simp del]

definition match_g :: "rx \<Rightarrow> string \<Rightarrow> string list option" where
  "match_g r s = (case matchAll (length s) r s of [] \<Rightarrow> None | x # xs \<Rightarrow> Some (x # xs))"

text \<open>\<^verbatim>\<open>s.replace(re, t)\<close> for a pattern without the \<^verbatim>\<open>g\<close> flag: the first match only.\<close>

definition replaceFirst :: "rx \<Rightarrow> string \<Rightarrow> string \<Rightarrow> string" where
  "replaceFirst r t s =
     (case exec (length s) r s of
        None \<Rightarrow> s
      | Some (b, e) \<Rightarrow> take (length s - length b) s @ t @ e)"

section \<open>The field classifier: \<^verbatim>\<open>extractContactInfo\<close>\<close>

subsection \<open>The data model\<close>

datatype upload_source = Camera | Upload

record ScannedData =
  name :: "string option"
  phone :: "string option"
  email :: "string option"
  company :: "string option"
  job_title :: "string option"
  website :: "string option"
  location :: "string option"
  raw_text :: string
  source :: upload_source
  confidence :: "real option"

subsection \<open>The patterns\<close>

definition between :: "char \<Rightarrow> char \<Rightarrow> char \<Rightarrow> bool" where
  "between lo hi c = (code lo \<le> code c \<and> code c \<le> code hi)"

definition oneOf :: "string \<Rightarrow> char \<Rightarrow> bool" where
  "oneOf cs c = (c \<in> set cs)"

text \<open>\<^verbatim>\<open>[a-zA-Z0-9._%+-]\<close> and \<^verbatim>\<open>[a-zA-Z0-9.-]\<close>.\<close>

definition emailLocalChar :: "char \<Rightarrow> bool" where
  "emailLocalChar c = (isAlnum c \<or> oneOf ''._%+-'' c)"

definition emailDomainChar :: "char \<Rightarrow> bool" where
  "emailDomainChar c = (isAlnum c \<or> oneOf ''.-'' c)"

text \<open>\<^verbatim>\<open>/([a-zA-Z0-9._%+-]+@[a-zA-Z0-9.-]+\.[a-zA-Z]{2,})/gi\<close>\<close>

definition emailRegex :: rx where
  "emailRegex =
     seqs [Many emailLocalChar 1 None, lit ''@'', Many emailDomainChar 1 None, lit ''.'',
           Many isAlpha 2 None]"

text \<open>\<^verbatim>\<open>[\s-]\<close>\<close>

definition spaceOrHyphen :: "char \<Rightarrow> bool" where
  "spaceOrHyphen c = (isSpace c \<or> c = CHR ''-'')"

text \<open>
  \<^verbatim>\<open>/(\+?91[\s-]?[6-9]\d{9}|\+?1[\s-]?\(?[2-9]\d{2}\)?[\s-]?[2-9]\d{2}[\s-]?\d{4}|\+?[1-9]\d{1,14})/g\<close>
\<close>

definition phoneIndia :: rx where
  "phoneIndia =
     seqs [lit ''91'', Opt (Ch spaceOrHyphen), Ch (between CHR ''6'' CHR ''9''),
           Many isDigit 9 (Some 9)]"

definition phoneUS :: rx where
  "phoneUS =
     seqs [lit ''1'', Opt (Ch spaceOrHyphen), Opt (lit ''(''),
           Ch (between CHR ''2'' CHR ''9''), Many isDigit 2 (Some 2), Opt (lit '')''),
           Opt (Ch spaceOrHyphen),
           Ch (between CHR ''2'' CHR ''9''), Many isDigit 2 (Some 2),
           Opt (Ch spaceOrHyphen), Many isDigit 4 (Some 4)]"

definition phoneGeneric :: rx where
  "phoneGeneric = seqs [Ch (between CHR ''1'' CHR ''9''), Many isDigit 1 (Some 14)]"

definition phoneRegex :: rx where
  "phoneRegex =
     alts [Seq (Opt (lit ''+'')) phoneIndia,
           Seq (Opt (lit ''+'')) phoneUS,
           Seq (Opt (lit ''+'')) phoneGeneric]"

text \<open>\<^verbatim>\<open>[a-zA-Z0-9-]\<close>\<close>

definition labelChar :: "char \<Rightarrow> bool" where
  "labelChar c = (isAlnum c \<or> c = CHR ''-'')"

text \<open>
  \<^verbatim>\<open>/(?:https?:\/\/)?(?:www\.)?([a-zA-Z0-9][a-zA-Z0-9-]{1,61}[a-zA-Z0-9]\.[a-zA-Z]{2,})/gi\<close>
\<close>

definition domainRegex :: rx where
  "domainRegex =
     seqs [Ch isAlnum, Many labelChar 1 (Some 61), Ch isAlnum, lit ''.'', Many isAlpha 2 None]"

definition websiteRegex :: rx where
  "websiteRegex =
     seqs [Opt (seqs [liti ''http'', Opt (liti ''s''), liti ''://'']),
           Opt (liti ''www.''),
           domainRegex]"

text \<open>\<^verbatim>\<open>/^[A-Z][a-zA-Z]{1,}\s+[A-Z][a-zA-Z]{1,}(\s+[A-Z][a-zA-Z]{1,})?$/\<close>\<close>

definition nameRegex :: rx where
  "nameRegex =
     seqs [Bol, Ch isUpper, Many isAlpha 1 None, Many isSpace 1 None,
           Ch isUpper, Many isAlpha 1 None,
           Opt (seqs [Many isSpace 1 None, Ch isUpper, Many isAlpha 1 None]),
           Eol]"

text \<open>\<^verbatim>\<open>/\d/\<close>\<close>

definition digitRegex :: rx where
  "digitRegex = Ch isDigit"

text \<open>\<^verbatim>\<open>/^[A-Z][a-zA-Z\s&,.-]{2,}/\<close>\<close>

definition properCaseChar :: "char \<Rightarrow> bool" where
  "properCaseChar c = (isAlpha c \<or> isSpace c \<or> oneOf ''&,.-'' c)"

definition properCaseRegex :: rx where
  "properCaseRegex = seqs [Bol, Ch isUpper, Many properCaseChar 2 None]"

text \<open>
  \<^verbatim>\<open>/\d+.*(?:street|st\.?|avenue|ave\.?|road|rd\.?|drive|dr\.?|lane|ln\.?|boulevard|blvd\.?)/i\<close>
\<close>

definition anyChar :: "char \<Rightarrow> bool" where
  "anyChar c = (\<not> isNewline c)"

definition streetSuffix :: rx where
  "streetSuffix =
     alts [liti ''street'', Seq (liti ''st'') (Opt (liti ''.'')),
           liti ''avenue'', Seq (liti ''ave'') (Opt (liti ''.'')),
           liti ''road'', Seq (liti ''rd'') (Opt (liti ''.'')),
           liti ''drive'', Seq (liti ''dr'') (Opt (liti ''.'')),
           liti ''lane'', Seq (liti ''ln'') (Opt (liti ''.'')),
           liti ''boulevard'', Seq (liti ''blvd'') (Opt (liti ''.''))]"

definition streetRegex :: rx where
  "streetRegex = seqs [Many isDigit 1 None, Many anyChar 0 None, streetSuffix]"

text \<open>\<^verbatim>\<open>/[A-Z][a-z]+,\s*[A-Z]{2}\s*\d{5}/\<close>, \<^verbatim>\<open>/\d{6}/\<close> and \<^verbatim>\<open>/\d{5}/\<close>\<close>

definition cityStateZipRegex :: rx where
  "cityStateZipRegex =
     seqs [Ch isUpper, Many isLower 1 None, lit '','', Many isSpace 0 None,
           Many isUpper 2 (Some 2), Many isSpace 0 None, Many isDigit 5 (Some 5)]"

definition pinRegex :: rx where
  "pinRegex = Many isDigit 6 (Some 6)"

definition zipRegex :: rx where
  "zipRegex = Many isDigit 5 (Some 5)"

text \<open>\<^verbatim>\<open>/^(https?:\/\/)?/\<close>, without the \<^verbatim>\<open>i\<close> flag\<close>

definition schemeRegex :: rx where
  "schemeRegex = seqs [Bol, Opt (seqs [lit ''http'', Opt (lit ''s''), lit ''://''])]"

subsection \<open>Preprocessing\<close>

text \<open>
  \<^verbatim>\<open>text.replace(/[^\w\s@.+\-()]/gi, ' ').replace(/\s+/g, ' ').trim()\<close>: every code unit
  outside the class becomes a space, every run of white space becomes one space.
\<close>

definition keepChar :: "char \<Rightarrow> bool" where
  "keepChar c = (isWord c \<or> isSpace c \<or> oneOf ''@.+-()'' c)"

function collapse :: "string \<Rightarrow> string" where
  "collapse [] = []"
| "collapse (c # cs) =
     (if isSpace c then CHR '' '' # collapse (dropWhile isSpace cs) else c # collapse cs)"
  by pat_completeness auto
termination
  by (relation "measure length") (auto simp: le_imp_less_Suc length_dropWhile_le)

definition cleanText :: "string \<Rightarrow> string" where
  "cleanText text = trim (collapse (map (\<lambda>c. if keepChar c then c else CHR '' '') text))"

text \<open>
  \<^verbatim>\<open>text.split(/[\n\r]+/)\<close>: the pieces between the runs of line breaks, the empty piece
  before a leading run and after a trailing run included.
\<close>

function split :: "string \<Rightarrow> string \<Rightarrow> string list" where
  "split cur [] = [rev cur]"
| "split cur (c # cs) =
     (if isNewline c then rev cur # split [] (dropWhile isNewline cs)
      else split (c # cur) cs)"
  by pat_completeness auto
termination
  by (relation "measure (\<lambda>(cur, s). length s)")
    (auto simp: le_imp_less_Suc length_dropWhile_le)

text \<open>\<^verbatim>\<open>text.split(/[\n\r]+/).map(line => line.trim()).filter(line => line.length > 1)\<close>\<close>

definition lines :: "string \<Rightarrow> string list" where
  "lines text = filter (\<lambda>line. length line > 1) (map trim (split [] text))"

definition emails :: "string \<Rightarrow> string list option" where
  "emails text = match_g emailRegex (cleanText text)"

definition phones :: "string \<Rightarrow> string list option" where
  "phones text = match_g phoneRegex (cleanText text)"

definition websites :: "string \<Rightarrow> string list option" where
  "websites text = match_g websiteRegex (cleanText text)"

subsection \<open>Line classification\<close>

text \<open>
  The three tests on a line against the pattern matches:
  \<^verbatim>\<open>emails?.some(email => t.includes(email.toLowerCase()))\<close>,
  \<^verbatim>\<open>phones?.some(phone => t.includes(phone.replace(/\D/g, '')))\<close> and
  \<^verbatim>\<open>websites?.some(website => t.includes(website.toLowerCase()))\<close>.
\<close>

definition mentionsEmail :: "string list option \<Rightarrow> string \<Rightarrow> bool" where
  "mentionsEmail es t = some_opt (\<lambda>email. includes_js t (toLowerCase email)) es"

definition mentionsPhone :: "string list option \<Rightarrow> string \<Rightarrow> bool" where
  "mentionsPhone ps t = some_opt (\<lambda>phone. includes_js t (filter isDigit phone)) ps"

definition mentionsWebsite :: "string list option \<Rightarrow> string \<Rightarrow> bool" where
  "mentionsWebsite ws t = some_opt (\<lambda>website. includes_js t (toLowerCase website)) ws"

text \<open>
  \<^verbatim>\<open>candidate && line === candidate\<close>: the candidate was found (and is a non-empty string)
  and the line equals it.
\<close>

definition isCandidate :: "(nat \<times> string) option \<Rightarrow> string \<Rightarrow> bool" where
  "isCandidate cand line =
     (case cand of None \<Rightarrow> False | Some (i, l) \<Rightarrow> l \<noteq> [] \<and> line = l)"

text \<open>The callback of \<^verbatim>\<open>nameCandidate = lines.find((line, index) => ...)\<close>.\<close>

definition isName :: "string \<Rightarrow> string \<Rightarrow> nat \<Rightarrow> bool" where
  "isName text line index =
     (let trimmed = trim line in
      if index > 3 then False
      else
        let isValidName = test nameRegex trimmed;
            hasNoNumbers = (\<not> test digitRegex trimmed);
            hasNoEmail = (\<not> mentionsEmail (emails text) (toLowerCase trimmed));
            hasNoPhone = (\<not> mentionsPhone (phones text) trimmed);
            hasNoWebsite = (\<not> mentionsWebsite (websites text) (toLowerCase trimmed))
        in isValidName \<and> hasNoNumbers \<and> hasNoEmail \<and> hasNoPhone \<and> hasNoWebsite)"

definition nameCandidate :: "string \<Rightarrow> (nat \<times> string) option" where
  "nameCandidate text = find_js (isName text) (lines text)"

definition companyKeywords :: "string list" where
  "companyKeywords =
     [''inc'', ''inc.'', ''ltd'', ''ltd.'', ''llc'', ''corp'', ''corporation'', ''company'',
      ''co.'', ''co'', ''group'', ''solutions'', ''services'', ''technologies'', ''systems'',
      ''enterprises'', ''consulting'', ''pvt'', ''private'', ''limited'', ''software'',
      ''tech'', ''digital'', ''innovation'']"

definition hasCompanyKeyword :: "string \<Rightarrow> bool" where
  "hasCompanyKeyword line =
     (let trimmed = toLowerCase (trim line) in
      list_ex (\<lambda>keyword. includes_js trimmed keyword \<or> endsWith trimmed keyword)
        companyKeywords)"

definition isProperCase :: "string \<Rightarrow> bool" where
  "isProperCase line = test properCaseRegex (trim line)"

text \<open>
  The three early returns of the company callback: the line is the name, or it mentions an
  extracted email or phone.
\<close>

definition companySkips :: "string \<Rightarrow> string \<Rightarrow> bool" where
  "companySkips text line =
     (let trimmed = toLowerCase (trim line) in
      isCandidate (nameCandidate text) line
      \<or> mentionsEmail (emails text) trimmed
      \<or> mentionsPhone (phones text) trimmed)"

text \<open>The callback of \<^verbatim>\<open>companyCandidate = lines.find((line, index) => ...)\<close>.\<close>

definition isCompany :: "string \<Rightarrow> string \<Rightarrow> nat \<Rightarrow> bool" where
  "isCompany text line index =
     (if companySkips text line then False
      else hasCompanyKeyword line \<or> (isProperCase line \<and> index < 5))"

definition companyCandidate :: "string \<Rightarrow> (nat \<times> string) option" where
  "companyCandidate text = find_js (isCompany text) (lines text)"

definition titleKeywords :: "string list" where
  "titleKeywords =
     [''manager'', ''director'', ''ceo'', ''cto'', ''cfo'', ''president'', ''vice president'',
      ''vp'', ''senior'', ''lead'', ''head'', ''chief'', ''engineer'', ''developer'',
      ''analyst'', ''consultant'', ''specialist'', ''coordinator'', ''executive'', ''officer'',
      ''founder'', ''partner'', ''associate'']"

text \<open>The callback of \<^verbatim>\<open>jobTitleCandidate = lines.find(line => ...)\<close>.\<close>

definition isJobTitle :: "string \<Rightarrow> string \<Rightarrow> nat \<Rightarrow> bool" where
  "isJobTitle text line index =
     (let trimmed = toLowerCase (trim line) in
      if isCandidate (nameCandidate text) line then False
      else if isCandidate (companyCandidate text) line then False
      else list_ex (\<lambda>keyword. includes_js trimmed keyword) titleKeywords)"

definition jobTitleCandidate :: "string \<Rightarrow> (nat \<times> string) option" where
  "jobTitleCandidate text = find_js (isJobTitle text) (lines text)"

text \<open>The callback of \<^verbatim>\<open>addressCandidate = lines.find(line => ...)\<close>.\<close>

definition looksLikeAddress :: "string \<Rightarrow> bool" where
  "looksLikeAddress trimmed =
     (test streetRegex trimmed \<or> test cityStateZipRegex trimmed
      \<or> test pinRegex trimmed \<or> test zipRegex trimmed)"

definition isAddress :: "string \<Rightarrow> string \<Rightarrow> nat \<Rightarrow> bool" where
  "isAddress text line index =
     (let trimmed = trim line in
      if mentionsEmail (emails text) (toLowerCase trimmed) then False
      else if mentionsPhone (phones text) trimmed then False
      else looksLikeAddress trimmed)"

definition addressCandidate :: "string \<Rightarrow> (nat \<times> string) option" where
  "addressCandidate text = find_js (isAddress text) (lines text)"

subsection \<open>The record\<close>

text \<open>\<^verbatim>\<open>xs?.[0]\<close> on a possibly-null array, and \<^verbatim>\<open>candidate?.trim()\<close>.\<close>

definition first :: "'a list option \<Rightarrow> 'a option" where
  "first xs = (case xs of None \<Rightarrow> None | Some [] \<Rightarrow> None | Some (x # ys) \<Rightarrow> Some x)"

definition trimmedLine :: "(nat \<times> string) option \<Rightarrow> string option" where
  "trimmedLine cand = map_option (\<lambda>(i, line). trim line) cand"

text \<open>\<^verbatim>\<open>phones?.[0]?.replace(/[^\d+]/g, '')\<close>\<close>

definition cleanPhone :: "string \<Rightarrow> string option" where
  "cleanPhone text =
     map_option (filter (\<lambda>c. isDigit c \<or> c = CHR ''+'')) (first (phones text))"

definition extractContactInfo :: "upload_source \<Rightarrow> string \<Rightarrow> real option \<Rightarrow> ScannedData" where
  "extractContactInfo uploadSource text conf =
     \<lparr> name = trimmedLine (nameCandidate text),
       phone = cleanPhone text,
       email = map_option toLowerCase (first (emails text)),
       company = trimmedLine (companyCandidate text),
       job_title = trimmedLine (jobTitleCandidate text),
       website = map_option (replaceFirst schemeRegex []) (first (websites text)),
       location = trimmedLine (addressCandidate text),
       raw_text = text,
       source = uploadSource,
       confidence = conf \<rparr>"

section \<open>The OCR orchestration: \<^verbatim>\<open>processImage\<close> and the \<^verbatim>\<open>vision-ocr\<close> function\<close>

text \<open>
  What a \<^verbatim>\<open>throw\<close> or a rejected promise carries: an \<^verbatim>\<open>Error\<close> with its message, or a
  value that is not an \<^verbatim>\<open>Error\<close> instance. An awaited call either raises or returns.
\<close>

datatype js_error = Error string | NonError

datatype 'a attempt = Raises js_error | Returns 'a

text \<open>
  The body the \<^verbatim>\<open>vision-ocr\<close> function answers with, read by the scanner as
  \<^verbatim>\<open>response.data\<close> (fields \<^verbatim>\<open>success\<close>, \<^verbatim>\<open>text\<close>, \<^verbatim>\<open>confidence\<close>, \<^verbatim>\<open>error\<close>; a field that
  is absent is \<open>None\<close>), the \<^verbatim>\<open>result.data\<close> of the local engine (\<^verbatim>\<open>text\<close> and a
  \<^verbatim>\<open>confidence\<close> between 0 and 100), and the first text annotation of the provider.
  Numbers are modelled as reals.
\<close>

record vision_data =
  ocr_success :: bool
  ocr_text :: "string option"
  ocr_confidence :: "real option"
  ocr_error :: "string option"

record tesseract_data =
  tess_text :: string
  tess_confidence :: real

record annotation =
  description :: string
  score :: "real option"

text \<open>
  \<^verbatim>\<open>x || d\<close> on an optional number: the default when \<^verbatim>\<open>x\<close> is absent or zero.
\<close>

definition orElse :: "real option \<Rightarrow> real \<Rightarrow> real" where
  "orElse x d = (case x of None \<Rightarrow> d | Some v \<Rightarrow> if v = 0 then d else v)"

text \<open>
  The handler of \<^verbatim>\<open>supabase/functions/vision-ocr/index.ts\<close>, as a function of the configured
  API key and of what the provider call yields (the first annotation of the first response,
  if any): status and body. Every \<^verbatim>\<open>throw\<close> in it ends in the \<^verbatim>\<open>catch\<close> that answers 500.
\<close>

definition failure :: "js_error \<Rightarrow> nat \<times> vision_data" where
  "failure err =
     (500, \<lparr> ocr_success = False, ocr_text = None, ocr_confidence = None,
             ocr_error = (case err of Error msg \<Rightarrow> Some msg | NonError \<Rightarrow> None) \<rparr>)"

definition visionOcr :: "string option \<Rightarrow> annotation option attempt \<Rightarrow> nat \<times> vision_data" where
  "visionOcr apiKey provider =
     (case apiKey of
        None \<Rightarrow> failure (Error ''Google Cloud API key not configured'')
      | Some key \<Rightarrow>
          if key = [] then failure (Error ''Google Cloud API key not configured'')
          else
            (case provider of
               Raises err \<Rightarrow> failure err
             | Returns None \<Rightarrow> failure (Error ''No text detected in image'')
             | Returns (Some a) \<Rightarrow>
                 (200, \<lparr> ocr_success = True, ocr_text = Some (description a),
                         ocr_confidence = Some (orElse (score a) 0.8), ocr_error = None \<rparr>)))"

text \<open>
  The calls a scan makes to the two engines, in order, and how the scan ends: it does not
  start without a captured image, it hands a record to \<^verbatim>\<open>onScanComplete\<close>, or it shows the
  failure toast with a message.
\<close>

datatype engine_call = InvokeVisionOcr string | TesseractRecognize string string

datatype scan_outcome = NotStarted | ScanComplete ScannedData | ScanFailed string

record scan_run =
  calls :: "engine_call list"
  outcome :: scan_outcome

text \<open>
  The \<^verbatim>\<open>catch (visionError)\<close> branch: \<^verbatim>\<open>Tesseract.recognize(capturedImage, 'eng', ...)\<close>, whose
  confidence is divided by 100.
\<close>

definition useTesseract ::
  "(string \<Rightarrow> string \<Rightarrow> tesseract_data attempt) \<Rightarrow> string
     \<Rightarrow> engine_call list \<times> (string option \<times> real) attempt" where
  "useTesseract tesseract img =
     ([InvokeVisionOcr img, TesseractRecognize img ''eng''],
      (case tesseract img ''eng'' of
         Raises err \<Rightarrow> Raises err
       | Returns result \<Rightarrow> Returns (Some (tess_text result), tess_confidence result / 100)))"

text \<open>
  The inner \<^verbatim>\<open>try\<close>/\<^verbatim>\<open>catch\<close>: the remote call first; its text and \<^verbatim>\<open>confidence || 0.8\<close> when
  \<^verbatim>\<open>response.data?.success\<close> holds, the local engine when the call raises, has no data or
  reports no success.
\<close>

definition readText ::
  "(string \<Rightarrow> vision_data option attempt) \<Rightarrow> (string \<Rightarrow> string \<Rightarrow> tesseract_data attempt)
     \<Rightarrow> string \<Rightarrow> engine_call list \<times> (string option \<times> real) attempt" where
  "readText vision tesseract img =
     (case vision img of
        Raises visionError \<Rightarrow> useTesseract tesseract img
      | Returns None \<Rightarrow> useTesseract tesseract img
      | Returns (Some d) \<Rightarrow>
          if ocr_success d
          then ([InvokeVisionOcr img], Returns (ocr_text d, orElse (ocr_confidence d) 0.8))
          else useTesseract tesseract img)"

text \<open>
  \<^verbatim>\<open>error instanceof Error ? error.message : "Failed to process the image. ..."\<close>
\<close>

definition errorMessage :: "js_error \<Rightarrow> string" where
  "errorMessage err =
     (case err of
        Error msg \<Rightarrow> msg
      | NonError \<Rightarrow> ''Failed to process the image. Please try again with better lighting.'')"

definition noTextMessage :: string where
  "noTextMessage = ''No text could be extracted from the image''"

text \<open>
  \<^verbatim>\<open>processImage\<close>: nothing happens without a captured image; the text must be present and
  its trimmed length at least 3, else the scan fails; otherwise the record of
  \<open>extractContactInfo\<close> is handed over.
\<close>

definition processImage ::
  "(string \<Rightarrow> vision_data option attempt) \<Rightarrow> (string \<Rightarrow> string \<Rightarrow> tesseract_data attempt)
     \<Rightarrow> upload_source \<Rightarrow> string option \<Rightarrow> scan_run" where
  "processImage vision tesseract uploadSource capturedImage =
     (case capturedImage of
        None \<Rightarrow> \<lparr> calls = [], outcome = NotStarted \<rparr>
      | Some img \<Rightarrow>
          if img = [] then \<lparr> calls = [], outcome = NotStarted \<rparr>
          else
            (case readText vision tesseract img of
               (cs, Raises err) \<Rightarrow> \<lparr> calls = cs, outcome = ScanFailed (errorMessage err) \<rparr>
             | (cs, Returns (extractedText, conf)) \<Rightarrow>
                 (case extractedText of
                    None \<Rightarrow> \<lparr> calls = cs, outcome = ScanFailed noTextMessage \<rparr>
                  | Some t \<Rightarrow>
                      if t = [] \<or> length (trim t) < 3
                      then \<lparr> calls = cs, outcome = ScanFailed noTextMessage \<rparr>
                      else \<lparr> calls = cs,
                             outcome = ScanComplete (extractContactInfo uploadSource t (Some conf)) \<rparr>)))"

section \<open>Sample cards\<close>

text \<open>
  A card with a name, a company, a job title, an email and a street line, and a card
  whose first line is title case and whose second line carries a company keyword.
\<close>

definition newline :: string where
  "newline = [CHR 0x0A]"

definition janeCard :: string where
  "janeCard =
     ''Jane Doe'' @ newline @ ''Acme Solutions Inc'' @ newline @ ''Senior Engineer'' @ newline
     @ ''jane@acme.com'' @ newline @ ''5 Main Street''"

definition helloCard :: string where
  "helloCard = ''Hello world'' @ newline @ ''Acme Inc.''"

section \<open>Properties of the model\<close>

subsection \<open>\<open>find\<close>, \<open>exec\<close> and the global match\<close>

lemma findFrom_Some:
  "findFrom i p xs = Some (j, x) \<Longrightarrow>
     \<exists>k. j = i + k \<and> k < length xs \<and> x = xs ! k \<and> p x j \<and> (\<forall>k'<k. \<not> p (xs ! k') (i + k'))"
proof (induction xs arbitrary: i)
  case Nil
  then show ?case by simp
next
  case (Cons y ys)
  show ?case
  proof (cases "p y i")
    case True
    with Cons.prems show ?thesis by simp
  next
    case False
    with Cons.prems have "findFrom (Suc i) p ys = Some (j, x)" by simp
    from Cons.IH [OF this] obtain k where k: "j = Suc i + k" "k < length ys" "x = ys ! k"
      "p x j" "\<forall>k'<k. \<not> p (ys ! k') (Suc i + k')" by blast
    have "\<forall>k'<Suc k. \<not> p ((y # ys) ! k') (i + k')"
    proof (intro allI impI)
      fix k' assume "k' < Suc k"
      then show "\<not> p ((y # ys) ! k') (i + k')"
        using False k(5) by (cases k') auto
    qed
    with k show ?thesis by (intro exI [of _ "Suc k"]) simp
  qed
qed

lemma find_js_Some:
  "find_js p xs = Some (j, x) \<Longrightarrow>
     j < length xs \<and> x = xs ! j \<and> p x j \<and> (\<forall>k<j. \<not> p (xs ! k) k)"
  using findFrom_Some [of 0 p xs j x] by (auto simp: find_js_def)

lemma findFrom_None: "(findFrom i p xs = None) = (\<forall>k<length xs. \<not> p (xs ! k) (i + k))"
proof (induction xs arbitrary: i)
  case Nil
  then show ?case by simp
next
  case (Cons y ys)
  show ?case
    by (auto simp: Cons.IH nth_Cons less_Suc_eq_0_disj split: nat.splits)
qed

lemma find_js_None: "(find_js p xs = None) = (\<forall>k<length xs. \<not> p (xs ! k) k)"
  using findFrom_None [of 0 p xs] by (simp add: find_js_def)

lemma find_js_first:
  assumes "j < length xs" "p (xs ! j) j" "\<forall>k<j. \<not> p (xs ! k) k"
  shows "find_js p xs = Some (j, xs ! j)"
proof (cases "find_js p xs")
  case None
  with assms show ?thesis by (simp add: find_js_None)
next
  case (Some a)
  obtain i x where a: "a = (i, x)" by (cases a)
  from find_js_Some [of p xs i x] Some a
  have i: "i < length xs" "x = xs ! i" "p x i" "\<forall>k<i. \<not> p (xs ! k) k" by auto
  have "i = j"
  proof (rule ccontr)
    assume "i \<noteq> j"
    then consider "i < j" | "j < i" by arith
    then show False using assms i by cases auto
  qed
  with Some a i show ?thesis by simp
qed

lemma exec_Some:
  "exec n r s = Some (b, e) \<Longrightarrow>
     \<exists>pre. s = pre @ b \<and> (\<forall>k<length pre. m n r (drop k s) = []) \<and> m n r b \<noteq> [] \<and> e = hd (m n r b)"
proof (induction s)
  case Nil
  then show ?case by (cases "m n r []") auto
next
  case (Cons c cs)
  show ?case
  proof (cases "m n r (c # cs)")
    case Nil
    with Cons.prems have "exec n r cs = Some (b, e)" by simp
    from Cons.IH [OF this] obtain pre where pre: "cs = pre @ b"
      "\<forall>k<length pre. m n r (drop k cs) = []" "m n r b \<noteq> []" "e = hd (m n r b)" by blast
    have "\<forall>k<length (c # pre). m n r (drop k (c # cs)) = []"
    proof (intro allI impI)
      fix k assume "k < length (c # pre)"
      then show "m n r (drop k (c # cs)) = []"
        using Nil pre(2) by (cases k) auto
    qed
    with pre show ?thesis by (intro exI [of _ "c # pre"]) simp
  next
    case (Cons e' es)
    with Cons.prems show ?thesis by (intro exI [of _ "[]"]) auto
  qed
qed

lemma exec_None: "(exec n r s = None) = (\<forall>k\<le>length s. m n r (drop k s) = [])"
proof (induction s)
  case Nil
  then show ?case by (cases "m n r []") auto
next
  case (Cons c cs)
  show ?case
  proof (cases "m n r (c # cs)")
    case Nil
    have "(\<forall>k\<le>length (c # cs). m n r (drop k (c # cs)) = []) = (\<forall>k\<le>length cs. m n r (drop k cs) = [])"
      (is "?L = ?R")
    proof
      assume l: ?L
      show ?R
      proof (intro allI impI)
        fix k assume "k \<le> length cs"
        with l have "m n r (drop (Suc k) (c # cs)) = []" by (metis Suc_le_mono length_Cons)
        then show "m n r (drop k cs) = []" by simp
      qed
    next
      assume r: ?R
      show ?L
      proof (intro allI impI)
        fix k assume "k \<le> length (c # cs)"
        then show "m n r (drop k (c # cs)) = []" using Nil r by (cases k) auto
      qed
    qed
    with Nil Cons.IH show ?thesis by simp
  next
    case (Cons e' es)
    then have "m n r (drop 0 (c # cs)) \<noteq> []" by simp
    then have "\<not> (\<forall>k\<le>length (c # cs). m n r (drop k (c # cs)) = [])" by blast
    with Cons show ?thesis by simp
  qed
qed

lemma exec_at:
  assumes "\<forall>k<length pre. m n r (drop k (pre @ s)) = []" "m n r s \<noteq> []"
  shows "exec n r (pre @ s) = Some (s, hd (m n r s))"
  using assms
proof (induction pre)
  case Nil
  then show ?case by (cases s; cases "m n r s") auto
next
  case (Cons c pre)
  from Cons.prems(1) have 0: "m n r (c # pre @ s) = []" by fastforce
  have "\<forall>k<length pre. m n r (drop k (pre @ s)) = []"
  proof (intro allI impI)
    fix k assume "k < length pre"
    then have "Suc k < length (c # pre)" by simp
    with Cons.prems(1) have "m n r (drop (Suc k) ((c # pre) @ s)) = []" by blast
    then show "m n r (drop k (pre @ s)) = []" by simp
  qed
  from Cons.IH [OF this Cons.prems(2)] 0 show ?case by simp
qed

lemma matched_append: "suffix e b \<Longrightarrow> matched b e @ e = b"
  by (auto simp: matched_def suffix_def)

lemma first_match_g:
  "first (match_g r s) = map_option (\<lambda>(b, e). matched b e) (exec (length s) r s)"
proof (cases "exec (length s) r s")
  case None
  then show ?thesis
    by (subst match_g_def, subst matchAll.simps) (simp add: first_def)
next
  case (Some a)
  then show ?thesis
    by (subst match_g_def, subst matchAll.simps) (simp add: first_def split: prod.splits)
qed

text \<open>The first element of a global match, located in the input.\<close>

lemma first_match_g_Some:
  assumes "first (match_g r s) = Some x"
  shows "\<exists>pre post. s = pre @ x @ post
           \<and> (\<forall>k<length pre. m (length s) r (drop k s) = [])
           \<and> m (length s) r (x @ post) \<noteq> []
           \<and> hd (m (length s) r (x @ post)) = post"
proof -
  from assms obtain b e where be: "exec (length s) r s = Some (b, e)" "x = matched b e"
    by (auto simp: first_match_g)
  from exec_Some [OF be(1)] obtain pre where pre: "s = pre @ b"
    "\<forall>k<length pre. m (length s) r (drop k s) = []" "m (length s) r b \<noteq> []"
    "e = hd (m (length s) r b)" by blast
  from exec_suffix [OF be(1)] have "suffix e b" by simp
  then have b: "b = x @ e" using be(2) by (simp add: matched_append)
  have 1: "s = pre @ x @ e" using pre(1) b by simp
  have 2: "m (length s) r (x @ e) \<noteq> []" using pre(3) b by simp
  have 3: "hd (m (length s) r (x @ e)) = e" using pre(4) b by simp
  from 1 pre(2) 2 3 show ?thesis by blast
qed

subsection \<open>What a match consumes\<close>

text \<open>
  Two syntactic facts about a pattern, used in proofs only: \<open>allCh P r\<close> says that every
  character class of \<open>r\<close> lies within \<open>P\<close>, \<open>needs P r\<close> that every match of \<open>r\<close> consumes
  a character of \<open>P\<close>.
\<close>

fun allCh :: "(char \<Rightarrow> bool) \<Rightarrow> rx \<Rightarrow> bool" where
  "allCh P Eps = True"
| "allCh P Bol = True"
| "allCh P Eol = True"
| "allCh P (Ch p) = (\<forall>c. p c \<longrightarrow> P c)"
| "allCh P (Many p lo hi) = (\<forall>c. p c \<longrightarrow> P c)"
| "allCh P (Opt r) = allCh P r"
| "allCh P (Seq r1 r2) = (allCh P r1 \<and> allCh P r2)"
| "allCh P (Alt r1 r2) = (allCh P r1 \<and> allCh P r2)"

fun needs :: "(char \<Rightarrow> bool) \<Rightarrow> rx \<Rightarrow> bool" where
  "needs P Eps = False"
| "needs P Bol = False"
| "needs P Eol = False"
| "needs P (Ch p) = (\<forall>c. p c \<longrightarrow> P c)"
| "needs P (Many p lo hi) = (0 < lo \<and> (\<forall>c. p c \<longrightarrow> P c))"
| "needs P (Opt r) = False"
| "needs P (Seq r1 r2) = (needs P r1 \<or> needs P r2)"
| "needs P (Alt r1 r2) = (needs P r1 \<and> needs P r2)"

lemma m_Seq_iff:
  "e \<in> set (m n (Seq r1 r2) s) = (\<exists>k\<in>set (m n r1 s). e \<in> set (m n r2 k))"
  by auto

lemma m_Many_iff:
  "e \<in> set (m n (Many p lo hi) s) =
     (\<exists>j. e = drop j s \<and> lo \<le> j \<and> j \<le> length (takeWhile p s) \<and> (case hi of None \<Rightarrow> True | Some h \<Rightarrow> j \<le> h))"
  by (cases hi) (auto simp: Let_def image_iff)

lemma lit_single: "lit [a] = Ch (\<lambda>x. x = a)"
  by (simp add: lit_def)

text \<open>The end of the domain pattern: \<^verbatim>\<open>[a-zA-Z0-9]\.[a-zA-Z]{2,}\<close>.\<close>

lemma m_Many_unbounded:
  "takeWhile p s = t \<Longrightarrow>
     m n (Many p lo None) s = map (\<lambda>j. drop j s) (rev [lo..<Suc (length t)])"
  by (auto simp: Let_def)

lemma m_Many_bounded:
  "takeWhile p s = t \<Longrightarrow>
     m n (Many p lo (Some h)) s = map (\<lambda>j. drop j s) (rev [lo..<Suc (min (length t) h)])"
  by (auto simp: Let_def)

lemma m_Seq_Many:
  "m n (Seq (Many p lo hi) r) s = concat (map (m n r) (m n (Many p lo hi) s))"
  by simp

lemma m_Ch_step: "p z \<Longrightarrow> m n (Seq (Ch p) r) (z # s) = m n r s"
  by simp

lemma m_lit_step: "m n (Seq (lit [a]) r) (a # s) = m n r s"
  by (simp add: lit_single)

lemma take_takeWhile_all:
  "j \<le> length (takeWhile p s) \<Longrightarrow> \<forall>c\<in>set (take j s). p c"
  by (induction s arbitrary: j) (auto simp: take_Cons split: nat.splits if_splits)

lemma takeWhile_append_stop:
  "\<forall>c\<in>set xs. p c \<Longrightarrow> ys = [] \<or> \<not> p (hd ys) \<Longrightarrow> takeWhile p (xs @ ys) = xs"
  by (induction xs) (auto simp: takeWhile_eq_Nil_iff)

lemma hd_append_first: "xs \<noteq> [] \<and> hd xs = p \<Longrightarrow> ys = xs @ zs \<Longrightarrow> ys \<noteq> [] \<and> hd ys = p"
  by auto

lemma m_allCh:
  "allCh P r \<Longrightarrow> e \<in> set (m n r s) \<Longrightarrow> \<exists>u. s = u @ e \<and> (\<forall>c\<in>set u. P c)"
proof (induction r arbitrary: s e)
  case (Ch p)
  then show ?case by (cases s) (auto split: if_splits)
next
  case (Many p lo hi)
  from Many.prems(2) obtain j where j: "e = drop j s" "j \<le> length (takeWhile p s)"
    unfolding m_Many_iff by blast
  from take_takeWhile_all [OF j(2)] Many.prems(1) have "\<forall>c\<in>set (take j s). P c" by auto
  with j(1) show ?case by (intro exI [of _ "take j s"]) simp
next
  case (Opt r)
  then show ?case by auto
next
  case (Seq r1 r2)
  from Seq.prems(2) obtain k where k: "k \<in> set (m n r1 s)" "e \<in> set (m n r2 k)"
    unfolding m_Seq_iff by blast
  from Seq.IH(1) [OF _ k(1)] Seq.prems(1) obtain u where u: "s = u @ k" "\<forall>c\<in>set u. P c" by auto
  from Seq.IH(2) [OF _ k(2)] Seq.prems(1) obtain v where v: "k = v @ e" "\<forall>c\<in>set v. P c" by auto
  from u v show ?case by (intro exI [of _ "u @ v"]) auto
next
  case (Alt r1 r2)
  then show ?case by auto
qed (auto split: if_splits)

lemma m_needs:
  "needs P r \<Longrightarrow> e \<in> set (m n r s) \<Longrightarrow> \<exists>c\<in>set s. P c"
proof (induction r arbitrary: s e)
  case (Ch p)
  then show ?case by (cases s) (auto split: if_splits)
next
  case (Many p lo hi)
  from Many.prems(2) obtain j where j: "lo \<le> j" "j \<le> length (takeWhile p s)"
    unfolding m_Many_iff by blast
  with Many.prems(1) have "takeWhile p s \<noteq> []" by auto
  then have "hd (takeWhile p s) \<in> set (takeWhile p s)" by simp
  then have "hd (takeWhile p s) \<in> set s" "p (hd (takeWhile p s))"
    by (auto dest: set_takeWhileD)
  with Many.prems(1) show ?case by auto
next
  case (Seq r1 r2)
  from Seq.prems(2) obtain k where k: "k \<in> set (m n r1 s)" "e \<in> set (m n r2 k)"
    unfolding m_Seq_iff by blast
  show ?case
  proof (cases "needs P r1")
    case True
    from Seq.IH(1) [OF True k(1)] show ?thesis .
  next
    case False
    with Seq.prems(1) have "needs P r2" by simp
    from Seq.IH(2) [OF this k(2)] obtain c where c: "c \<in> set k" "P c" by blast
    from m_suffix [OF k(1)] c(1) have "c \<in> set s" by (auto simp: suffix_def)
    with c(2) show ?thesis by blast
  qed
next
  case (Alt r1 r2)
  then show ?case by auto
qed auto

lemma test_needs:
  assumes "needs P r" "test r s"
  shows "\<exists>c\<in>set s. P c"
proof -
  from assms(2) obtain b e where be: "exec (length s) r s = Some (b, e)"
    by (auto simp: test_def)
  from exec_suffix [OF be] have "suffix b s" "e \<in> set (m (length s) r b)" by auto
  from m_needs [OF assms(1) this(2)] \<open>suffix b s\<close> show ?thesis
    by (auto simp: suffix_def)
qed

lemma test_digit: "test digitRegex s = (\<exists>c\<in>set s. isDigit c)"
proof
  assume "test digitRegex s"
  then show "\<exists>c\<in>set s. isDigit c"
    by (intro test_needs [of isDigit digitRegex s]) (simp_all add: digitRegex_def)
next
  assume "\<exists>c\<in>set s. isDigit c"
  then obtain k where k: "k < length s" "isDigit (s ! k)" by (auto simp: in_set_conv_nth)
  then have "drop k s = s ! k # drop (Suc k) s" by (simp add: Cons_nth_drop_Suc)
  with k have "m (length s) digitRegex (drop k s) \<noteq> []" by (simp add: digitRegex_def)
  with k(1) have "\<not> (\<forall>k\<le>length s. m (length s) digitRegex (drop k s) = [])"
    by (meson less_imp_le)
  then show "test digitRegex s" by (simp add: test_def exec_None)
qed

subsection \<open>Characters and preprocessing\<close>

lemma toLowerChar_not_upper: "\<not> isUpper (toLowerChar c)"
  by (auto simp: isUpper_def toLowerChar_def code_def)

lemma code_toLowerChar:
  "code (toLowerChar c) =
     (if (65 \<le> code c \<and> code c \<le> 90) \<or> (192 \<le> code c \<and> code c \<le> 222 \<and> code c \<noteq> 215)
      then code c + 32 else code c)"
  by (auto simp: toLowerChar_def code_def)

lemma toLowerChar_colon: "toLowerChar c = CHR '':'' \<Longrightarrow> c = CHR '':''"
proof -
  assume a: "toLowerChar c = CHR '':''"
  then have "code (toLowerChar c) = 58" by (simp add: code_def)
  then have "\<not> ((65 \<le> code c \<and> code c \<le> 90) \<or> (192 \<le> code c \<and> code c \<le> 222 \<and> code c \<noteq> 215))"
    by (auto simp: code_toLowerChar split: if_splits)
  with a show ?thesis by (simp add: toLowerChar_def)
qed

lemma toLowerChar_dot: "toLowerChar c = CHR ''.'' \<Longrightarrow> c = CHR ''.''"
proof -
  assume a: "toLowerChar c = CHR ''.''"
  then have "code (toLowerChar c) = 46" by (simp add: code_def)
  then have "\<not> ((65 \<le> code c \<and> code c \<le> 90) \<or> (192 \<le> code c \<and> code c \<le> 222 \<and> code c \<noteq> 215))"
    by (auto simp: code_toLowerChar split: if_splits)
  with a show ?thesis by (simp add: toLowerChar_def)
qed

lemma isAlnum_not_dot: "isAlnum c \<Longrightarrow> c \<noteq> CHR ''.''"
  by (auto simp: isAlnum_def isAlpha_def isLower_def isUpper_def isDigit_def code_def)

lemma labelChar_not_dot: "labelChar c \<Longrightarrow> c \<noteq> CHR ''.''"
  by (auto simp: labelChar_def dest: isAlnum_not_dot)

lemma isAlnum_labelChar: "isAlnum c \<Longrightarrow> labelChar c"
  by (simp add: labelChar_def)

lemma isAlpha_labelChar: "isAlpha c \<Longrightarrow> labelChar c"
  by (simp add: labelChar_def isAlnum_def)

lemma digit_not_plus: "isDigit c \<Longrightarrow> c \<noteq> CHR ''+''"
  by (auto simp: isDigit_def code_def)

lemma between_digits_not_plus:
  "between CHR ''1'' CHR ''9'' c \<Longrightarrow> c \<noteq> CHR ''+''"
  "between CHR ''2'' CHR ''9'' c \<Longrightarrow> c \<noteq> CHR ''+''"
  "between CHR ''6'' CHR ''9'' c \<Longrightarrow> c \<noteq> CHR ''+''"
  by (auto simp: between_def code_def)

lemma spaceOrHyphen_not_plus: "spaceOrHyphen c \<Longrightarrow> c \<noteq> CHR ''+''"
  by (auto simp: spaceOrHyphen_def isSpace_def code_def)

lemma trim_Nil: "trim [] = []"
  by (simp add: trim_def)

lemma set_trim: "set (trim s) \<subseteq> set s"
proof -
  have "set (trim s) \<subseteq> set (rev (dropWhile isSpace s))"
    unfolding trim_def by (auto dest: set_dropWhileD)
  also have "\<dots> \<subseteq> set s" by (auto dest: set_dropWhileD)
  finally show ?thesis .
qed

lemma set_collapse: "set (collapse s) \<subseteq> insert CHR '' '' (set s)"
proof (induction s rule: collapse.induct)
  case 1
  then show ?case by simp
next
  case (2 c cs)
  then show ?case by (auto dest: set_dropWhileD)
qed

lemma keepChar_space: "keepChar CHR '' ''"
  by (simp add: keepChar_def isSpace_def code_def)

lemma cleanText_keep: "c \<in> set (cleanText text) \<Longrightarrow> keepChar c"
proof -
  assume "c \<in> set (cleanText text)"
  then have "c \<in> set (collapse (map (\<lambda>c. if keepChar c then c else CHR '' '') text))"
    unfolding cleanText_def using set_trim by blast
  then have "c = CHR '' '' \<or> c \<in> set (map (\<lambda>c. if keepChar c then c else CHR '' '') text)"
    using set_collapse by blast
  then show ?thesis by (auto simp: keepChar_space split: if_splits)
qed

lemma keepChar_not_colon: "keepChar c \<Longrightarrow> c \<noteq> CHR '':''"
  by (auto simp: keepChar_def isWord_def isAlnum_def isAlpha_def isLower_def isUpper_def
      isDigit_def isSpace_def oneOf_def code_def)

lemma lines_long: "l \<in> set (lines text) \<Longrightarrow> 1 < length l"
  by (simp add: lines_def)

subsection \<open>Claimed lines\<close>

lemma looksLikeAddress_digit:
  assumes "looksLikeAddress s"
  shows "\<exists>c\<in>set s. isDigit c"
proof -
  have 1: "needs isDigit streetRegex" by (simp add: streetRegex_def)
  have 2: "needs isDigit cityStateZipRegex" by (simp add: cityStateZipRegex_def)
  have 3: "needs isDigit pinRegex" by (simp add: pinRegex_def)
  have 4: "needs isDigit zipRegex" by (simp add: zipRegex_def)
  from assms test_needs [OF 1] test_needs [OF 2] test_needs [OF 3] test_needs [OF 4]
  show ?thesis unfolding looksLikeAddress_def by blast
qed

lemma candidate_in_lines:
  assumes "find_js p (lines text) = Some (i, a)"
  shows "i < length (lines text) \<and> a = lines text ! i \<and> a \<noteq> [] \<and> p a i"
proof -
  from find_js_Some [OF assms] have i: "i < length (lines text)" and a: "a = lines text ! i"
    and p: "p a i" by auto
  from i a have "a \<in> set (lines text)" by simp
  from lines_long [OF this] have "a \<noteq> []" by auto
  with i a p show ?thesis by simp
qed

lemma name_company_differ:
  assumes "nameCandidate text = Some (i, a)" "companyCandidate text = Some (j, b)"
  shows "a \<noteq> b"
proof -
  from candidate_in_lines [OF assms(1) [unfolded nameCandidate_def]] have a: "a \<noteq> []" by blast
  from candidate_in_lines [OF assms(2) [unfolded companyCandidate_def]]
  have "isCompany text b j" by blast
  then have "\<not> isCandidate (nameCandidate text) b"
    by (auto simp: isCompany_def companySkips_def Let_def split: if_splits)
  with assms(1) a show ?thesis by (auto simp: isCandidate_def)
qed

lemma name_title_differ:
  assumes "nameCandidate text = Some (i, a)" "jobTitleCandidate text = Some (k, c)"
  shows "a \<noteq> c"
proof -
  from candidate_in_lines [OF assms(1) [unfolded nameCandidate_def]] have a: "a \<noteq> []" by blast
  from candidate_in_lines [OF assms(2) [unfolded jobTitleCandidate_def]]
  have "isJobTitle text c k" by blast
  then have "\<not> isCandidate (nameCandidate text) c"
    by (auto simp: isJobTitle_def Let_def split: if_splits)
  with assms(1) a show ?thesis by (auto simp: isCandidate_def)
qed

lemma company_title_differ:
  assumes "companyCandidate text = Some (j, b)" "jobTitleCandidate text = Some (k, c)"
  shows "b \<noteq> c"
proof -
  from candidate_in_lines [OF assms(1) [unfolded companyCandidate_def]] have b: "b \<noteq> []" by blast
  from candidate_in_lines [OF assms(2) [unfolded jobTitleCandidate_def]]
  have "isJobTitle text c k" by blast
  then have "\<not> isCandidate (companyCandidate text) c"
    by (auto simp: isJobTitle_def Let_def split: if_splits)
  with assms(1) b show ?thesis by (auto simp: isCandidate_def)
qed

lemma name_address_differ:
  assumes "nameCandidate text = Some (i, a)" "addressCandidate text = Some (l, d)"
  shows "a \<noteq> d"
proof -
  from candidate_in_lines [OF assms(1) [unfolded nameCandidate_def]]
  have "isName text a i" by blast
  then have "\<not> test digitRegex (trim a)"
    by (auto simp: isName_def Let_def split: if_splits)
  then have na: "\<not> (\<exists>c\<in>set (trim a). isDigit c)" by (simp add: test_digit)
  from candidate_in_lines [OF assms(2) [unfolded addressCandidate_def]]
  have "isAddress text d l" by blast
  then have "looksLikeAddress (trim d)"
    by (auto simp: isAddress_def Let_def split: if_splits)
  from looksLikeAddress_digit [OF this] na show ?thesis by auto
qed

lemma same_index_same_line:
  assumes "find_js p (lines text) = Some (i, a)" "find_js q (lines text) = Some (i, b)"
  shows "a = b"
  using candidate_in_lines [OF assms(1)] candidate_in_lines [OF assms(2)] by simp

lemma all_unset:
  assumes "emails text = None" "phones text = None" "websites text = None"
    and "\<forall>i<length (lines text).
           \<not> isName text (lines text ! i) i \<and> \<not> isCompany text (lines text ! i) i
           \<and> \<not> isJobTitle text (lines text ! i) i \<and> \<not> isAddress text (lines text ! i) i"
  shows "extractContactInfo src text conf =
           \<lparr> name = None, phone = None, email = None, company = None, job_title = None,
             website = None, location = None, raw_text = text, source = src,
             confidence = conf \<rparr>"
proof -
  from assms(4) have "nameCandidate text = None" "companyCandidate text = None"
    "jobTitleCandidate text = None" "addressCandidate text = None"
    by (simp_all add: nameCandidate_def companyCandidate_def jobTitleCandidate_def
        addressCandidate_def find_js_None)
  with assms(1-3) show ?thesis
    by (simp add: extractContactInfo_def trimmedLine_def cleanPhone_def first_def)
qed

subsection \<open>The phone pattern\<close>

lemma plus_then_body:
  assumes "e \<in> set (m n (Seq (Opt (lit [a])) r) b)" "allCh P r"
  shows "\<exists>u. (b = u @ e \<or> b = a # u @ e) \<and> (\<forall>c\<in>set u. P c)"
proof -
  from assms(1) obtain k where k: "k \<in> set (m n (Opt (lit [a])) b)" "e \<in> set (m n r k)"
    unfolding m_Seq_iff by blast
  from m_allCh [OF assms(2) k(2)] obtain u where u: "k = u @ e" "\<forall>c\<in>set u. P c" by blast
  from k(1) have "k = b \<or> b = a # k"
    by (cases b) (auto simp: lit_single split: if_splits)
  with u show ?thesis by auto
qed

lemma phone_bodies_no_plus:
  "allCh (\<lambda>c. c \<noteq> CHR ''+'') phoneIndia"
  "allCh (\<lambda>c. c \<noteq> CHR ''+'') phoneUS"
  "allCh (\<lambda>c. c \<noteq> CHR ''+'') phoneGeneric"
  by (auto simp: phoneIndia_def phoneUS_def phoneGeneric_def lit_def
      dest: digit_not_plus between_digits_not_plus spaceOrHyphen_not_plus)

lemma phone_match_shape:
  assumes "e \<in> set (m n phoneRegex b)"
  shows "\<exists>u. (b = u @ e \<or> b = CHR ''+'' # u @ e) \<and> (\<forall>c\<in>set u. c \<noteq> CHR ''+'')"
proof -
  from assms consider
      "e \<in> set (m n (Seq (Opt (lit ''+'')) phoneIndia) b)"
    | "e \<in> set (m n (Seq (Opt (lit ''+'')) phoneUS) b)"
    | "e \<in> set (m n (Seq (Opt (lit ''+'')) phoneGeneric) b)"
    unfolding phoneRegex_def by auto
  then show ?thesis
    by cases (erule plus_then_body, rule phone_bodies_no_plus)+
qed

lemma filter_no_plus:
  "\<forall>c\<in>set u. c \<noteq> CHR ''+'' \<Longrightarrow> filter (\<lambda>c. isDigit c \<or> c = CHR ''+'') u = filter isDigit u"
  by (induction u) auto

subsection \<open>The match the engine picks for the email pattern\<close>

lemma hd_concat_desc:
  "concat (map f (rev [lo..<Suc K])) \<noteq> [] \<Longrightarrow>
     \<exists>j. lo \<le> j \<and> j \<le> K \<and> f j \<noteq> []
        \<and> hd (concat (map f (rev [lo..<Suc K]))) = hd (f j)
        \<and> (\<forall>j'. j < j' \<and> j' \<le> K \<longrightarrow> f j' = [])"
proof (induction K)
  case 0
  then show ?case by (cases "lo = 0") auto
next
  case (Suc K)
  show ?case
  proof (cases "lo \<le> Suc K")
    case False
    with Suc.prems show ?thesis by simp
  next
    case True
    then have r: "rev [lo..<Suc (Suc K)] = Suc K # rev [lo..<Suc K]" by simp
    show ?thesis
    proof (cases "f (Suc K) = []")
      case False
      with True r show ?thesis by (intro exI [of _ "Suc K"]) auto
    next
      case e: True
      from Suc.prems have "concat (map f (Suc K # rev [lo..<Suc K])) \<noteq> []"
        unfolding r .
      then have ne: "concat (map f (rev [lo..<Suc K])) \<noteq> []"
        using e by (simp del: upt_Suc)
      from Suc.IH [OF ne] obtain j where j: "lo \<le> j" "j \<le> K" "f j \<noteq> []"
        "hd (concat (map f (rev [lo..<Suc K]))) = hd (f j)"
        "\<forall>j'. j < j' \<and> j' \<le> K \<longrightarrow> f j' = []" by blast
      have "\<forall>j'. j < j' \<and> j' \<le> Suc K \<longrightarrow> f j' = []"
        using j(5) e by (auto simp: le_Suc_eq)
      moreover have "hd (concat (map f (rev [lo..<Suc (Suc K)]))) = hd (f j)"
        unfolding r using e j(4) by (simp del: upt_Suc)
      ultimately show ?thesis using j(1,2,3) by (intro exI [of _ j]) auto
    qed
  qed
qed

text \<open>
  A greedy repetition followed by \<open>r\<close>: the engine's match comes from the longest
  repetition after which \<open>r\<close> matches.
\<close>

lemma many_first:
  assumes "m n (Seq (Many p lo None) r) s \<noteq> []"
  shows "\<exists>j. lo \<le> j \<and> j \<le> length (takeWhile p s) \<and> m n r (drop j s) \<noteq> []
           \<and> hd (m n (Seq (Many p lo None) r) s) = hd (m n r (drop j s))
           \<and> (\<forall>j'. j < j' \<and> j' \<le> length (takeWhile p s) \<longrightarrow> m n r (drop j' s) = [])"
proof -
  have eq: "m n (Seq (Many p lo None) r) s
          = concat (map (\<lambda>j. m n r (drop j s)) (rev [lo..<Suc (length (takeWhile p s))]))"
    by (simp only: m_Seq_Many m_Many_unbounded [OF refl] map_map comp_def)
  from hd_concat_desc [of "\<lambda>j. m n r (drop j s)" lo "length (takeWhile p s)"] assms
  show ?thesis unfolding eq by blast
qed

lemma lit_first:
  assumes "m n (Seq (lit [a]) r) k \<noteq> []"
  shows "\<exists>k'. k = a # k' \<and> m n (Seq (lit [a]) r) k = m n r k'"
  using assms by (cases k) (auto simp: lit_single split: if_splits)

lemma split_at_last:
  assumes "a @ c # b = a' @ c # b'" "c \<notin> set b" "c \<notin> set b'"
  shows "a = a' \<and> b = b'"
proof -
  have "takeWhile (\<lambda>x. x \<noteq> c) (rev b @ c # rev a) = rev b"
    using assms(2) by (intro takeWhile_append_stop) auto
  moreover have "takeWhile (\<lambda>x. x \<noteq> c) (rev b' @ c # rev a') = rev b'"
    using assms(3) by (intro takeWhile_append_stop) auto
  moreover from assms(1) have "rev (a @ c # b) = rev (a' @ c # b')" by simp
  then have "rev b @ c # rev a = rev b' @ c # rev a'" by simp
  ultimately have "rev b = rev b'" by simp
  then have "b = b'" by simp
  with assms(1) show ?thesis by simp
qed

lemma emailRegex_unfold:
  "emailRegex =
     Seq (Many emailLocalChar 1 None) (Seq (lit ''@'')
       (Seq (Many emailDomainChar 1 None) (Seq (lit ''.'') (Many isAlpha 2 None))))"
  by (simp add: emailRegex_def)

lemma emailLocalChar_not_at: "emailLocalChar c \<Longrightarrow> c \<noteq> CHR ''@''"
  by (auto simp: emailLocalChar_def isAlnum_def isAlpha_def isLower_def isUpper_def isDigit_def
      oneOf_def code_def)

lemma emailDomainChar_not_at: "emailDomainChar c \<Longrightarrow> c \<noteq> CHR ''@''"
  by (auto simp: emailDomainChar_def isAlnum_def isAlpha_def isLower_def isUpper_def isDigit_def
      oneOf_def code_def)

lemma isAlpha_emailDomainChar: "isAlpha c \<Longrightarrow> emailDomainChar c"
  by (simp add: emailDomainChar_def isAlnum_def)

lemma labelChar_emailDomainChar: "labelChar c \<Longrightarrow> emailDomainChar c"
  by (auto simp: emailDomainChar_def labelChar_def oneOf_def)

lemma isAlpha_not_dot: "isAlpha c \<Longrightarrow> c \<noteq> CHR ''.''"
  by (auto simp: isAlpha_def isLower_def isUpper_def code_def)

lemma tail_first:
  assumes "m n (Seq (lit ''.'') (Many isAlpha 2 None)) k \<noteq> []"
  shows "\<exists>w. k = CHR ''.'' # w \<and> 2 \<le> length (takeWhile isAlpha w)
           \<and> hd (m n (Seq (lit ''.'') (Many isAlpha 2 None)) k) = dropWhile isAlpha w"
proof -
  from lit_first [OF assms] obtain w where w: "k = CHR ''.'' # w"
    "m n (Seq (lit ''.'') (Many isAlpha 2 None)) k = m n (Many isAlpha 2 None) w" by blast
  let ?A = "length (takeWhile isAlpha w)"
  have mm: "m n (Many isAlpha 2 None) w = map (\<lambda>j. drop j w) (rev [2..<Suc ?A])"
    by (rule m_Many_unbounded [OF refl])
  from assms w(2) mm have A: "2 \<le> ?A" by (cases "2 \<le> ?A") auto
  then have "rev [2..<Suc ?A] = ?A # rev [2..<?A]" by simp
  with mm have "hd (m n (Many isAlpha 2 None) w) = drop ?A w" by simp
  then have "hd (m n (Seq (lit ''.'') (Many isAlpha 2 None)) k) = dropWhile isAlpha w"
    unfolding w(2) by (simp add: dropWhile_eq_drop)
  with w(1) A show ?thesis by blast
qed

text \<open>
  What it means that the engine's match of the email pattern at an address is
  \<open>loc@label.tld\<close>, for a label of letters, digits and hyphens and letters after the dot:
  the letters are two or more and end there, and no longer domain leads to a match.
\<close>

lemma email_pick:
  assumes ne: "m n emailRegex (loc @ ''@'' @ label @ ''.'' @ tld @ post) \<noteq> []"
    and hd: "hd (m n emailRegex (loc @ ''@'' @ label @ ''.'' @ tld @ post)) = post"
    and label: "\<forall>c\<in>set label. labelChar c"
    and tld: "\<forall>c\<in>set tld. isAlpha c"
  shows "2 \<le> length tld
       \<and> (post = [] \<or> \<not> isAlpha (hd post))
       \<and> (\<forall>j. length label < j
               \<and> j \<le> length (takeWhile emailDomainChar (label @ ''.'' @ tld @ post))
             \<longrightarrow> m n (Seq (lit ''.'') (Many isAlpha 2 None))
                   (drop j (label @ ''.'' @ tld @ post)) = [])"
proof -
  define whole where "whole = loc @ ''@'' @ label @ ''.'' @ tld @ post"
  define dom where "dom = label @ ''.'' @ tld @ post"
  let ?T = "Seq (lit ''.'') (Many isAlpha 2 None)"
  let ?C = "Seq (Many emailDomainChar 1 None) ?T"
  let ?B = "Seq (lit ''@'') ?C"
  have ne': "m n (Seq (Many emailLocalChar 1 None) ?B) whole \<noteq> []"
    using ne unfolding emailRegex_unfold whole_def .
  have hd': "hd (m n (Seq (Many emailLocalChar 1 None) ?B) whole) = post"
    using hd unfolding emailRegex_unfold whole_def .
  from many_first [OF ne'] obtain j1 where j1:
    "m n ?B (drop j1 whole) \<noteq> []"
    "hd (m n (Seq (Many emailLocalChar 1 None) ?B) whole) = hd (m n ?B (drop j1 whole))" by blast
  from lit_first [OF j1(1)] obtain k2 where k2: "drop j1 whole = CHR ''@'' # k2"
    "m n ?B (drop j1 whole) = m n ?C k2" by blast
  have r3: "m n ?C k2 \<noteq> []" "hd (m n ?C k2) = post"
    using j1 hd' unfolding k2(2) by simp_all
  then have "post \<in> set (m n ?C k2)" by (metis hd_in_set)
  moreover have "allCh emailDomainChar ?C"
    by (auto simp: lit_single emailDomainChar_def oneOf_def isAlnum_def)
  ultimately obtain u where u: "k2 = u @ post" "\<forall>c\<in>set u. emailDomainChar c"
    using m_allCh by blast
  have "whole = take j1 whole @ drop j1 whole" by (rule append_take_drop_id [symmetric])
  then have "whole = (take j1 whole @ CHR ''@'' # u) @ post" using k2(1) u(1) by simp
  moreover have "whole = (loc @ CHR ''@'' # (label @ CHR ''.'' # tld)) @ post"
    by (simp add: whole_def)
  ultimately have eq: "take j1 whole @ CHR ''@'' # u = loc @ CHR ''@'' # (label @ CHR ''.'' # tld)"
    by (metis append_same_eq)
  have "CHR ''@'' \<notin> set u" using u(2) by (auto dest: emailDomainChar_not_at)
  moreover have "CHR ''@'' \<notin> set (label @ CHR ''.'' # tld)"
    using label tld
    by (auto dest!: labelChar_emailDomainChar isAlpha_emailDomainChar emailDomainChar_not_at)
  ultimately have "u = label @ CHR ''.'' # tld"
    using split_at_last [OF eq] by blast
  with u(1) have k2dom: "k2 = dom" by (simp add: dom_def)
  have a: "m n ?C dom \<noteq> []" using r3(1) unfolding k2dom .
  have b: "hd (m n ?C dom) = post" using r3(2) unfolding k2dom .
  from many_first [OF a] obtain j where j: "j \<le> length (takeWhile emailDomainChar dom)"
    "m n ?T (drop j dom) \<noteq> []"
    "hd (m n ?C dom) = hd (m n ?T (drop j dom))"
    "\<forall>j'. j < j' \<and> j' \<le> length (takeWhile emailDomainChar dom) \<longrightarrow> m n ?T (drop j' dom) = []"
    by blast
  from j(3) b have jp: "post = hd (m n ?T (drop j dom))" by simp
  from tail_first [OF j(2)] jp obtain w where w: "drop j dom = CHR ''.'' # w"
    "2 \<le> length (takeWhile isAlpha w)" "post = dropWhile isAlpha w" by auto
  from w(3) have p: "post = [] \<or> \<not> isAlpha (hd post)"
    by (metis hd_dropWhile)
  have "dom = take j dom @ drop j dom" by (rule append_take_drop_id [symmetric])
  also have "\<dots> = take j dom @ CHR ''.'' # (takeWhile isAlpha w @ dropWhile isAlpha w)"
    using w(1) by simp
  finally have "dom = (take j dom @ CHR ''.'' # takeWhile isAlpha w) @ post"
    using w(3) by simp
  moreover have "dom = (label @ CHR ''.'' # tld) @ post" by (simp add: dom_def)
  ultimately have eq2: "take j dom @ CHR ''.'' # takeWhile isAlpha w = label @ CHR ''.'' # tld"
    by (metis append_same_eq)
  have "CHR ''.'' \<notin> set (takeWhile isAlpha w)"
    by (auto dest!: set_takeWhileD isAlpha_not_dot)
  moreover have "CHR ''.'' \<notin> set tld" using tld by (auto dest: isAlpha_not_dot)
  ultimately have both: "take j dom = label" "takeWhile isAlpha w = tld"
    using split_at_last [OF eq2] by blast+
  from both(2) w(2) have t2: "2 \<le> length tld" by simp
  have "j \<le> length dom" using j(1) by (meson le_trans length_takeWhile_le)
  with both(1) have "j = length label" by (metis length_take min.absorb2)
  with j(4) have "\<forall>j. length label < j \<and> j \<le> length (takeWhile emailDomainChar dom)
           \<longrightarrow> m n ?T (drop j dom) = []" by simp
  with t2 p show ?thesis unfolding dom_def by blast
qed

subsection \<open>The website pattern at the domain of an email address\<close>

lemma scheme_never_matches:
  assumes "\<forall>c\<in>set s. c \<noteq> CHR '':''"
  shows "m n (seqs [liti ''http'', Opt (liti ''s''), liti ''://'']) s = []"
proof (rule ccontr)
  assume "m n (seqs [liti ''http'', Opt (liti ''s''), liti ''://'']) s \<noteq> []"
  then obtain e where e: "e \<in> set (m n (seqs [liti ''http'', Opt (liti ''s''), liti ''://'']) s)"
    by (meson hd_in_set)
  have "needs (\<lambda>c. c = CHR '':'') (seqs [liti ''http'', Opt (liti ''s''), liti ''://''])"
    by (auto simp: liti_def dest: toLowerChar_colon)
  from m_needs [OF this e] assms show False by blast
qed

lemma scheme_replace_id:
  assumes "\<forall>c\<in>set s. c \<noteq> CHR '':''"
  shows "replaceFirst schemeRegex [] s = s"
proof -
  have sch: "m (length s) (seqs [lit ''http'', Opt (lit ''s''), lit ''://'']) s = []"
  proof (rule ccontr)
    assume "m (length s) (seqs [lit ''http'', Opt (lit ''s''), lit ''://'']) s \<noteq> []"
    then obtain e where e: "e \<in> set (m (length s) (seqs [lit ''http'', Opt (lit ''s''), lit ''://'']) s)"
      by (meson hd_in_set)
    have "needs (\<lambda>c. c = CHR '':'') (seqs [lit ''http'', Opt (lit ''s''), lit ''://''])"
      by (simp add: lit_def)
    from m_needs [OF this e] assms show False by blast
  qed
  have "m (length s) schemeRegex s = [s]"
    unfolding schemeRegex_def using sch by simp
  then have "exec (length s) schemeRegex s = Some (s, s)"
    by (cases s) auto
  then show ?thesis by (simp add: replaceFirst_def)
qed

lemma domain_tail_match:
  assumes "isAlnum z" "\<forall>c\<in>set tld. isAlpha c" "2 \<le> length tld"
    and "post = [] \<or> \<not> isAlpha (hd post)"
  shows "m n (Seq (Ch isAlnum) (Seq (lit ''.'') (Many isAlpha 2 None)))
           (z # CHR ''.'' # tld @ post)
         = map (\<lambda>j. drop j (tld @ post)) (rev [2..<Suc (length tld)])"
proof -
  have tw: "takeWhile isAlpha (tld @ post) = tld"
    using assms(2,4) by (rule takeWhile_append_stop)
  show ?thesis
    by (simp only: m_Ch_step [of isAlnum z, OF assms(1)] m_lit_step m_Many_unbounded [OF tw])
qed

lemma domain_tail_head:
  assumes "isAlnum z" "\<forall>c\<in>set tld. isAlpha c" "2 \<le> length tld"
    and "post = [] \<or> \<not> isAlpha (hd post)"
  shows "m n (Seq (Ch isAlnum) (Seq (lit ''.'') (Many isAlpha 2 None)))
           (z # CHR ''.'' # tld @ post) \<noteq> []
       \<and> hd (m n (Seq (Ch isAlnum) (Seq (lit ''.'') (Many isAlpha 2 None)))
           (z # CHR ''.'' # tld @ post)) = post"
proof -
  from assms(3) have r: "rev [2..<Suc (length tld)] = length tld # rev [2..<length tld]"
    by simp
  have d: "drop (length tld) (tld @ post) = post" by simp
  show ?thesis
    unfolding domain_tail_match [OF assms] r by (simp only: list.map list.sel d) simp
qed

lemma domain_tail_at_dot:
  "m n (Seq (Ch isAlnum) (Seq (lit ''.'') (Many isAlpha 2 None))) (CHR ''.'' # s) = []"
  using isAlnum_not_dot [of "CHR ''.''"] by auto

lemma domainRegex_unfold:
  "domainRegex =
     Seq (Ch isAlnum) (Seq (Many labelChar 1 (Some 61))
       (Seq (Ch isAlnum) (Seq (lit ''.'') (Many isAlpha 2 None))))"
  by (simp add: domainRegex_def)

text \<open>
  At a label of 3 to 63 characters that starts and ends with a letter or digit, followed
  by a dot and a run of letters that ends there, the domain pattern matches and the engine
  takes the whole of label, dot and letters.
\<close>

lemma domain_head:
  assumes a: "isAlnum a" and mid: "\<forall>c\<in>set mid. labelChar c" "1 \<le> length mid" "length mid \<le> 61"
    and z: "isAlnum z" and tld: "\<forall>c\<in>set tld. isAlpha c" "2 \<le> length tld"
    and post: "post = [] \<or> \<not> isAlpha (hd post)"
  shows "m n domainRegex (a # mid @ z # CHR ''.'' # tld @ post) \<noteq> []
       \<and> hd (m n domainRegex (a # mid @ z # CHR ''.'' # tld @ post)) = post"
proof -
  let ?T = "Seq (Ch isAlnum) (Seq (lit ''.'') (Many isAlpha 2 None))"
  let ?s1 = "mid @ z # CHR ''.'' # tld @ post"
  let ?M = "length mid"
  have "takeWhile labelChar ((mid @ [z]) @ CHR ''.'' # tld @ post) = mid @ [z]"
    using mid(1) z labelChar_not_dot [of "CHR ''.''"]
    by (intro takeWhile_append_stop) (auto simp: isAlnum_labelChar)
  then have tw: "takeWhile labelChar ?s1 = mid @ [z]" by simp
  have many: "m n (Many labelChar 1 (Some 61)) ?s1
                = map (\<lambda>j. drop j ?s1) (rev [1..<Suc (min (Suc ?M) 61)])"
    using m_Many_bounded [OF tw, of n 1 61] by simp
  have dM: "drop ?M ?s1 = z # CHR ''.'' # tld @ post" by simp
  have dS: "drop (Suc ?M) ?s1 = CHR ''.'' # tld @ post" by simp
  note good = domain_tail_head [OF z tld post, of n]
  have step: "m n domainRegex (a # ?s1) = concat (map (m n ?T) (m n (Many labelChar 1 (Some 61)) ?s1))"
    unfolding domainRegex_unfold
    by (simp only: m_Ch_step [of isAlnum a, OF a] m_Seq_Many)
  show ?thesis
  proof (cases "Suc ?M \<le> 61")
    case True
    then have mn: "min (Suc ?M) 61 = Suc ?M" by simp
    have rv: "rev [1..<Suc (Suc ?M)] = Suc ?M # ?M # rev [1..<?M]"
      using mid(2) by simp
    have l: "m n (Many labelChar 1 (Some 61)) ?s1
        = drop (Suc ?M) ?s1 # drop ?M ?s1 # map (\<lambda>j. drop j ?s1) (rev [1..<?M])"
      unfolding many mn rv by (simp only: list.map)
    have "m n domainRegex (a # ?s1)
        = m n ?T (z # CHR ''.'' # tld @ post)
          @ concat (map (m n ?T) (map (\<lambda>j. drop j ?s1) (rev [1..<?M])))"
      unfolding step l
      by (simp only: list.map concat.simps dM dS domain_tail_at_dot append_Nil)
    from hd_append_first [OF good this] show ?thesis .
  next
    case False
    with mid(3) have M: "?M = 61" by simp
    then have mn: "min (Suc ?M) 61 = ?M" by simp
    have rv: "rev [1..<Suc ?M] = ?M # rev [1..<?M]"
      using mid(2) by simp
    have l: "m n (Many labelChar 1 (Some 61)) ?s1
        = drop ?M ?s1 # map (\<lambda>j. drop j ?s1) (rev [1..<?M])"
      unfolding many mn rv by (simp only: list.map)
    have "m n domainRegex (a # ?s1)
        = m n ?T (z # CHR ''.'' # tld @ post)
          @ concat (map (m n ?T) (map (\<lambda>j. drop j ?s1) (rev [1..<?M])))"
      unfolding step l
      by (simp only: list.map concat.simps dM)
    from hd_append_first [OF good this] show ?thesis .
  qed
qed

text \<open>
  Every match of the domain pattern starts with label characters up to a dot that two or
  more letters follow.
\<close>

lemma domain_match_dot:
  assumes "e \<in> set (m n domainRegex s)"
  shows "\<exists>w r. s = w @ CHR ''.'' # r \<and> (\<forall>c\<in>set w. labelChar c)
           \<and> m n (Seq (lit ''.'') (Many isAlpha 2 None)) (CHR ''.'' # r) \<noteq> []"
proof -
  from assms obtain k1 k2 k3 k4 where
    k: "k1 \<in> set (m n (Ch isAlnum) s)" "k2 \<in> set (m n (Many labelChar 1 (Some 61)) k1)"
       "k3 \<in> set (m n (Ch isAlnum) k2)" "k4 \<in> set (m n (lit ''.'') k3)"
       "e \<in> set (m n (Many isAlpha 2 None) k4)"
    unfolding domainRegex_unfold m_Seq_iff by blast
  have 1: "allCh labelChar (Ch isAlnum)" by (simp add: isAlnum_labelChar)
  have 2: "allCh labelChar (Many labelChar 1 (Some 61))" by simp
  from m_allCh [OF 1 k(1)] obtain u1 where u1: "s = u1 @ k1" "\<forall>c\<in>set u1. labelChar c" by blast
  from m_allCh [OF 2 k(2)] obtain u2 where u2: "k1 = u2 @ k2" "\<forall>c\<in>set u2. labelChar c" by blast
  from m_allCh [OF 1 k(3)] obtain u3 where u3: "k2 = u3 @ k3" "\<forall>c\<in>set u3. labelChar c" by blast
  from k(4) have k3: "k3 = CHR ''.'' # k4"
    by (cases k3) (auto simp: lit_single split: if_splits)
  from k(5) have "m n (Many isAlpha 2 None) k4 \<noteq> []" by auto
  then have t: "m n (Seq (lit ''.'') (Many isAlpha 2 None)) (CHR ''.'' # k4) \<noteq> []"
    unfolding m_lit_step .
  from k3 u1 u2 u3 have "s = (u1 @ u2 @ u3) @ CHR ''.'' # k4" "\<forall>c\<in>set (u1 @ u2 @ u3). labelChar c"
    by auto
  with t show ?thesis by blast
qed

text \<open>
  When no domain longer than the label leads to an email match, the domain pattern does
  not match at the letters after the dot.
\<close>

lemma domain_fails_after_pick:
  assumes label: "\<forall>c\<in>set label. labelChar c"
    and longer: "\<forall>j. length label < j
                   \<and> j \<le> length (takeWhile emailDomainChar (label @ ''.'' @ tld @ post))
                 \<longrightarrow> m n (Seq (lit ''.'') (Many isAlpha 2 None))
                       (drop j (label @ ''.'' @ tld @ post)) = []"
  shows "m n domainRegex (tld @ post) = []"
proof (rule ccontr)
  assume "m n domainRegex (tld @ post) \<noteq> []"
  then obtain e where "e \<in> set (m n domainRegex (tld @ post))" by (meson hd_in_set)
  from domain_match_dot [OF this] obtain w r where
    w: "tld @ post = w @ CHR ''.'' # r" "\<forall>c\<in>set w. labelChar c"
       "m n (Seq (lit ''.'') (Many isAlpha 2 None)) (CHR ''.'' # r) \<noteq> []" by blast
  define u where "u = label @ CHR ''.'' # w"
  have dom: "label @ ''.'' @ tld @ post = u @ CHR ''.'' # r"
    using w(1) by (simp add: u_def)
  have all: "\<forall>c\<in>set u. emailDomainChar c"
    using label w(2) by (auto simp: u_def emailDomainChar_def oneOf_def labelChar_def)
  then have "takeWhile emailDomainChar (u @ CHR ''.'' # r) = u @ takeWhile emailDomainChar (CHR ''.'' # r)"
    by (simp add: takeWhile_append2)
  then have le: "length u \<le> length (takeWhile emailDomainChar (label @ ''.'' @ tld @ post))"
    unfolding dom by simp
  have lt: "length label < length u" by (simp add: u_def)
  have "drop (length u) (label @ ''.'' @ tld @ post) = CHR ''.'' # r"
    unfolding dom by simp
  with longer lt le w(3) show False by metis
qed

lemma liti_www: 
  "liti ''www.'' =
     Seq (Ch (\<lambda>x. toLowerChar x = CHR ''w'')) (Seq (Ch (\<lambda>x. toLowerChar x = CHR ''w''))
       (Seq (Ch (\<lambda>x. toLowerChar x = CHR ''w'')) (Ch (\<lambda>x. toLowerChar x = CHR ''.''))))"
  by (simp add: liti_def)

text \<open>
  If \<^verbatim>\<open>www.\<close> matches at the label, the label is those three letters and what is left is
  the run of letters after the dot.
\<close>

lemma www_consumes_label:
  assumes "k \<in> set (m n (liti ''www.'') (a # mid @ z # CHR ''.'' # rest))"
    and "\<forall>c\<in>set mid. labelChar c" "isAlnum z" "mid \<noteq> []"
  shows "k = rest"
proof -
  from assms(1) obtain c2 c3 c4 where
    c: "c2 # c3 # c4 # k = mid @ z # CHR ''.'' # rest" "toLowerChar c4 = CHR ''.''"
    unfolding liti_www m_Seq_iff
    by (auto split: list.splits if_splits)
  from c(2) have c4: "c4 = CHR ''.''" by (rule toLowerChar_dot)
  show ?thesis
  proof (cases mid)
    case Nil
    with assms(4) show ?thesis by simp
  next
    case (Cons b mid')
    note outer = Cons
    show ?thesis
    proof (cases mid')
      case Nil
      with outer c(1) c4 show ?thesis by auto
    next
      case (Cons b' mid'')
      with outer c(1) c4 assms(2,3) show ?thesis
        by (cases mid'') (auto dest: isAlnum_not_dot labelChar_not_dot)
    qed
  qed
qed

lemma websiteRegex_unfold:
  "websiteRegex =
     Seq (Opt (seqs [liti ''http'', Opt (liti ''s''), liti ''://'']))
       (Seq (Opt (liti ''www.'')) domainRegex)"
  by (simp add: websiteRegex_def)

lemma website_without_scheme:
  assumes "\<forall>c\<in>set s. c \<noteq> CHR '':''"
  shows "m n websiteRegex s
           = concat (map (m n domainRegex) (m n (liti ''www.'') s)) @ m n domainRegex s"
proof -
  have "m n websiteRegex s
          = concat (map (m n (Seq (Opt (liti ''www.'')) domainRegex))
              (m n (seqs [liti ''http'', Opt (liti ''s''), liti ''://'']) s @ [s]))"
    unfolding websiteRegex_unfold by (simp only: m.simps(6,7))
  also have "\<dots> = m n (Seq (Opt (liti ''www.'')) domainRegex) s"
    by (simp only: scheme_never_matches [OF assms] append_Nil list.map concat.simps append_Nil2)
  also have "\<dots> = concat (map (m n domainRegex) (m n (liti ''www.'') s)) @ m n domainRegex s"
    by (simp only: m.simps(6,7) map_append concat_append list.map concat.simps append_Nil2)
  finally show ?thesis .
qed

text \<open>
  The website pattern at the domain of an address \<^verbatim>\<open>local@label.tld\<close> that the email
  pattern picks.
\<close>

lemma website_at_picked_domain:
  assumes a: "isAlnum a" and mid: "\<forall>c\<in>set mid. labelChar c" "1 \<le> length mid" "length mid \<le> 61"
    and z: "isAlnum z" and tld: "\<forall>c\<in>set tld. isAlpha c" "2 \<le> length tld"
    and post: "post = [] \<or> \<not> isAlpha (hd post)"
    and after: "m n domainRegex (tld @ post) = []"
    and colon: "\<forall>c\<in>set post. c \<noteq> CHR '':''"
  shows "m n websiteRegex (a # mid @ z # CHR ''.'' # tld @ post) \<noteq> []
       \<and> hd (m n websiteRegex (a # mid @ z # CHR ''.'' # tld @ post)) = post"
proof -
  let ?d = "a # mid @ z # CHR ''.'' # tld @ post"
  have alpha_colon: "\<And>c. isAlpha c \<Longrightarrow> c \<noteq> CHR '':''"
    by (auto simp: isAlpha_def isLower_def isUpper_def code_def)
  have label_colon: "\<And>c. labelChar c \<Longrightarrow> c \<noteq> CHR '':''"
    by (auto simp: labelChar_def isAlnum_def isAlpha_def isLower_def isUpper_def isDigit_def code_def)
  have nocolon: "\<forall>c\<in>set ?d. c \<noteq> CHR '':''"
    using a mid(1) z tld(1) colon
    by (auto dest: alpha_colon label_colon isAlnum_labelChar)
  have www: "concat (map (m n domainRegex) (m n (liti ''www.'') ?d)) = []"
  proof -
    have "m n domainRegex k = []" if "k \<in> set (m n (liti ''www.'') ?d)" for k
    proof -
      from mid(2) have "mid \<noteq> []" by auto
      from www_consumes_label [OF that mid(1) z this] have "k = tld @ post" .
      with after show ?thesis by simp
    qed
    then show ?thesis by simp
  qed
  have "m n websiteRegex ?d = m n domainRegex ?d @ []"
    unfolding website_without_scheme [OF nocolon] www by simp
  from hd_append_first [OF domain_head [OF a mid z tld post] this] show ?thesis .
qed

lemma label_split:
  assumes "3 \<le> length label"
  shows "label = hd label # butlast (tl label) @ [last label] \<and> 1 \<le> length (butlast (tl label))
         \<and> length (butlast (tl label)) = length label - 2"
proof -
  from assms obtain a r where 1: "label = a # r" "2 \<le> length r" by (cases label) auto
  then have "r \<noteq> []" by auto
  then have "r = butlast r @ [last r]" by simp
  with 1 show ?thesis by auto
qed

subsection \<open>The scan\<close>

lemma readText_fallback:
  assumes "(\<exists>err. vision img = Raises err) \<or> vision img = Returns None
           \<or> (\<exists>d. vision img = Returns (Some d) \<and> \<not> ocr_success d)"
  shows "readText vision tesseract img = useTesseract tesseract img"
  using assms by (auto simp: readText_def)

lemma orElse_nonzero: "orElse x (8 / 10) \<noteq> 0"
  by (cases x) (auto simp: orElse_def)

lemma remote_success_confidence:
  assumes "vision img = Returns (Some d)" "ocr_success d"
    and "outcome (processImage vision tesseract src (Some img)) = ScanComplete data"
  shows "confidence data = Some (orElse (ocr_confidence d) 0.8)"
  using assms
  by (auto simp: processImage_def readText_def extractContactInfo_def
      split: if_splits option.splits)

subsection \<open>The sample inputs, evaluated\<close>

lemma jane_clean:
  "cleanText janeCard = ''Jane Doe Acme Solutions Inc Senior Engineer jane@acme.com 5 Main Street''"
  by code_simp

lemma jane_emails: "emails janeCard = Some [''jane@acme.com'']"
  unfolding emails_def jane_clean by code_simp

lemma jane_phones: "phones janeCard = None"
  unfolding phones_def jane_clean by code_simp

lemma jane_websites: "websites janeCard = Some [''acme.com'']"
  unfolding websites_def jane_clean by code_simp

lemma jane_lines:
  "lines janeCard =
     [''Jane Doe'', ''Acme Solutions Inc'', ''Senior Engineer'', ''jane@acme.com'', ''5 Main Street'']"
  by code_simp

lemma jane_name: "nameCandidate janeCard = Some (0, ''Jane Doe'')"
  unfolding nameCandidate_def jane_lines find_js_def findFrom.simps isName_def
    jane_emails jane_phones jane_websites
  by code_simp

lemma jane_company: "companyCandidate janeCard = Some (1, ''Acme Solutions Inc'')"
  unfolding companyCandidate_def jane_lines find_js_def findFrom.simps isCompany_def
    companySkips_def jane_name jane_emails jane_phones
  by code_simp

lemma jane_title: "jobTitleCandidate janeCard = Some (2, ''Senior Engineer'')"
  unfolding jobTitleCandidate_def jane_lines find_js_def findFrom.simps isJobTitle_def
    jane_name jane_company
  by code_simp

lemma jane_address: "addressCandidate janeCard = Some (4, ''5 Main Street'')"
  unfolding addressCandidate_def jane_lines find_js_def findFrom.simps isAddress_def
    jane_emails jane_phones
  by code_simp

lemma jane_keyword: "hasCompanyKeyword ''Acme Solutions Inc''"
  by code_simp

lemma jane_not_skipped: "\<not> companySkips janeCard ''Acme Solutions Inc''"
  unfolding companySkips_def jane_name jane_emails jane_phones by code_simp

lemma jane_name_skipped: "\<not> isCompany janeCard ''Jane Doe'' 0"
  unfolding isCompany_def companySkips_def jane_name jane_emails jane_phones by code_simp

lemma street_clean: "cleanText ''5 Tech Street'' = ''5 Tech Street''"
  by code_simp

lemma street_emails: "emails ''5 Tech Street'' = None"
  unfolding emails_def street_clean by code_simp

lemma street_phones: "phones ''5 Tech Street'' = None"
  unfolding phones_def street_clean by code_simp

lemma street_websites: "websites ''5 Tech Street'' = None"
  unfolding websites_def street_clean by code_simp

lemma street_lines: "lines ''5 Tech Street'' = [''5 Tech Street'']"
  by code_simp

lemma street_name: "nameCandidate ''5 Tech Street'' = None"
  unfolding nameCandidate_def street_lines find_js_def findFrom.simps isName_def
    street_emails street_phones street_websites
  by code_simp

lemma street_company: "companyCandidate ''5 Tech Street'' = Some (0, ''5 Tech Street'')"
  unfolding companyCandidate_def street_lines find_js_def findFrom.simps isCompany_def
    companySkips_def street_name street_emails street_phones
  by code_simp

lemma street_address: "addressCandidate ''5 Tech Street'' = Some (0, ''5 Tech Street'')"
  unfolding addressCandidate_def street_lines find_js_def findFrom.simps isAddress_def
    street_emails street_phones
  by code_simp

lemma hello_clean: "cleanText helloCard = ''Hello world Acme Inc.''"
  by code_simp

lemma hello_emails: "emails helloCard = None"
  unfolding emails_def hello_clean by code_simp

lemma hello_phones: "phones helloCard = None"
  unfolding phones_def hello_clean by code_simp

lemma hello_websites: "websites helloCard = None"
  unfolding websites_def hello_clean by code_simp

lemma hello_lines: "lines helloCard = [''Hello world'', ''Acme Inc.'']"
  by code_simp

lemma hello_name: "nameCandidate helloCard = None"
  unfolding nameCandidate_def hello_lines find_js_def findFrom.simps isName_def
    hello_emails hello_phones hello_websites
  by code_simp

lemma hello_company: "companyCandidate helloCard = Some (0, ''Hello world'')"
  unfolding companyCandidate_def hello_lines find_js_def findFrom.simps isCompany_def
    companySkips_def hello_name hello_emails hello_phones
  by code_simp

lemma empty_clean: "cleanText [] = []"
  by code_simp

lemma empty_emails: "emails [] = None"
  unfolding emails_def empty_clean by code_simp

lemma empty_phones: "phones [] = None"
  unfolding phones_def empty_clean by code_simp

lemma empty_websites: "websites [] = None"
  unfolding websites_def empty_clean by code_simp

lemma empty_lines: "lines [] = []"
  by code_simp

lemma garbage_clean: "cleanText ''??'' = []"
  by code_simp

lemma garbage_emails: "emails ''??'' = None"
  unfolding emails_def garbage_clean by code_simp

lemma garbage_phones: "phones ''??'' = None"
  unfolding phones_def garbage_clean by code_simp

lemma garbage_websites: "websites ''??'' = None"
  unfolding websites_def garbage_clean by code_simp

lemma garbage_lines: "lines ''??'' = [''??'']"
  by code_simp

lemma garbage_name: "\<not> isName ''??'' ''??'' 0"
  unfolding isName_def garbage_emails garbage_phones garbage_websites by code_simp

lemma garbage_nameCandidate: "nameCandidate ''??'' = None"
  by (simp add: nameCandidate_def garbage_lines find_js_def garbage_name)

lemma garbage_company: "\<not> isCompany ''??'' ''??'' 0"
  unfolding isCompany_def companySkips_def garbage_nameCandidate garbage_emails garbage_phones
  by code_simp

lemma garbage_companyCandidate: "companyCandidate ''??'' = None"
  by (simp add: companyCandidate_def garbage_lines find_js_def garbage_company)

lemma garbage_title: "\<not> isJobTitle ''??'' ''??'' 0"
  unfolding isJobTitle_def garbage_nameCandidate garbage_companyCandidate by code_simp

lemma garbage_address: "\<not> isAddress ''??'' ''??'' 0"
  unfolding isAddress_def garbage_emails garbage_phones by code_simp

lemma usPhone_clean: "cleanText ''+1 (415) 555-0132'' = ''+1 (415) 555-0132''"
  by code_simp

lemma usPhone_phones: "phones ''+1 (415) 555-0132'' = Some [''+1 (415) 555-0132'']"
  unfolding phones_def usPhone_clean by code_simp

lemma websites_www_example:
  "websites ''www.example.com'' = Some [''www.example.com'']"
proof -
  have c: "cleanText ''www.example.com'' = ''www.example.com''" by code_simp
  show ?thesis unfolding websites_def c by code_simp
qed

lemma emails_contact_john:
  "emails ''Contact: JOHN@Example.COM for info'' = Some [''JOHN@Example.COM'']"
proof -
  have c: "cleanText ''Contact: JOHN@Example.COM for info'' = ''Contact JOHN@Example.COM for info''"
    by code_simp
  show ?thesis unfolding emails_def c by code_simp
qed

lemma thanks_clean: "cleanText ''Mail jane@acme.com. Thanks'' = ''Mail jane@acme.com. Thanks''"
  by code_simp

lemma thanks_leftmost:
  "\<forall>k<5. m 26 emailRegex (drop k ''Mail jane@acme.com. Thanks'') = []"
proof -
  have "\<forall>k\<in>set [0..<5]. m 26 emailRegex (drop k ''Mail jane@acme.com. Thanks'') = []"
    by code_simp
  then show ?thesis by simp
qed

lemma thanks_picked:
  "m 26 emailRegex ''jane@acme.com. Thanks'' \<noteq> []"
  "hd (m 26 emailRegex ''jane@acme.com. Thanks'') = ''. Thanks''"
  by code_simp+

lemma thanks_earlier:
  "\<forall>k<10. m 26 websiteRegex (drop k ''Mail jane@acme.com. Thanks'') = []"
proof -
  have "\<forall>k\<in>set [0..<10]. m 26 websiteRegex (drop k ''Mail jane@acme.com. Thanks'') = []"
    by code_simp
  then show ?thesis by simp
qed

lemma subdomain_clean: "cleanText ''john@mail.example.com'' = ''john@mail.example.com''"
  by code_simp

lemma subdomain_emails: "emails ''john@mail.example.com'' = Some [''john@mail.example.com'']"
  unfolding emails_def subdomain_clean by code_simp

lemma subdomain_websites: "websites ''john@mail.example.com'' = Some [''mail.example'']"
  unfolding websites_def subdomain_clean by code_simp

section \<open>The claims\<close>

text \<open>
  Claim C1. The claim is that no two of name, company, job title and location are taken
  from the same line. The company and job-title callbacks skip the lines claimed before
  them, the address callback skips only the lines that mention an email or a phone, so the
  claim holds as follows: name, company and job title come from pairwise different lines
  (and line indices), and so do name and location (a name has no digit, an address has
  one). Location may share its line with company or job title: on the one-line card
  \<^verbatim>\<open>5 Tech Street\<close> both company and location are that line.
\<close>

theorem candidate_lines_distinct:
  "(nameCandidate text = Some (i, a) \<and> companyCandidate text = Some (j, b) \<longrightarrow> i \<noteq> j \<and> a \<noteq> b)
   \<and> (nameCandidate text = Some (i, a) \<and> jobTitleCandidate text = Some (k, c) \<longrightarrow> i \<noteq> k \<and> a \<noteq> c)
   \<and> (companyCandidate text = Some (j, b) \<and> jobTitleCandidate text = Some (k, c) \<longrightarrow> j \<noteq> k \<and> b \<noteq> c)
   \<and> (nameCandidate text = Some (i, a) \<and> addressCandidate text = Some (l, d) \<longrightarrow> i \<noteq> l \<and> a \<noteq> d)"
proof (intro conjI impI; elim conjE)
  assume h: "nameCandidate text = Some (i, a)" "companyCandidate text = Some (j, b)"
  from name_company_differ [OF h] show "a \<noteq> b" .
  with h show "i \<noteq> j"
    using same_index_same_line [of "isName text" "text" i a "isCompany text" b]
    by (auto simp: nameCandidate_def companyCandidate_def)
next
  assume h: "nameCandidate text = Some (i, a)" "jobTitleCandidate text = Some (k, c)"
  from name_title_differ [OF h] show "a \<noteq> c" .
  with h show "i \<noteq> k"
    using same_index_same_line [of "isName text" "text" i a "isJobTitle text" c]
    by (auto simp: nameCandidate_def jobTitleCandidate_def)
next
  assume h: "companyCandidate text = Some (j, b)" "jobTitleCandidate text = Some (k, c)"
  from company_title_differ [OF h] show "b \<noteq> c" .
  with h show "j \<noteq> k"
    using same_index_same_line [of "isCompany text" "text" j b "isJobTitle text" c]
    by (auto simp: companyCandidate_def jobTitleCandidate_def)
next
  assume h: "nameCandidate text = Some (i, a)" "addressCandidate text = Some (l, d)"
  from name_address_differ [OF h] show "a \<noteq> d" .
  with h show "i \<noteq> l"
    using same_index_same_line [of "isName text" "text" i a "isAddress text" d]
    by (auto simp: nameCandidate_def addressCandidate_def)
qed

theorem candidate_lines_distinct_witness:
  "nameCandidate janeCard = Some (0, ''Jane Doe'')
   \<and> companyCandidate janeCard = Some (1, ''Acme Solutions Inc'')
   \<and> jobTitleCandidate janeCard = Some (2, ''Senior Engineer'')
   \<and> addressCandidate janeCard = Some (4, ''5 Main Street'')
   \<and> ''Jane Doe'' \<noteq> ''Acme Solutions Inc'' \<and> ''Jane Doe'' \<noteq> ''Senior Engineer''
   \<and> ''Acme Solutions Inc'' \<noteq> ''Senior Engineer'' \<and> ''Jane Doe'' \<noteq> ''5 Main Street''"
  using candidate_lines_distinct [of janeCard 0 "''Jane Doe''" 1 "''Acme Solutions Inc''"
      2 "''Senior Engineer''" 4 "''5 Main Street''"]
  by (simp only: jane_name jane_company jane_title jane_address) simp

theorem company_and_location_share_line:
  "companyCandidate ''5 Tech Street'' = Some (0, ''5 Tech Street'')
   \<and> addressCandidate ''5 Tech Street'' = Some (0, ''5 Tech Street'')
   \<and> company (extractContactInfo Camera ''5 Tech Street'' None) = Some ''5 Tech Street''
   \<and> location (extractContactInfo Camera ''5 Tech Street'' None) = Some ''5 Tech Street''"
proof -
  have t: "trim ''5 Tech Street'' = ''5 Tech Street''" by code_simp
  show ?thesis
    by (simp add: extractContactInfo_def street_company street_address trimmedLine_def t)
qed

text \<open>
  Claim C2. For every text, the empty string included, and every confidence and source,
  the \<open>raw_text\<close> field of the record returned by \<open>extractContactInfo\<close> is the input text,
  character for character.
\<close>

theorem rawText_verbatim:
  "raw_text (extractContactInfo src text conf) = text
   \<and> raw_text (extractContactInfo src [] conf) = []"
  by (simp add: extractContactInfo_def)

text \<open>
  Claim C3. The claim is that the \<open>website\<close> field has the scheme and the \<^verbatim>\<open>www.\<close> prefix
  stripped. On the input \<^verbatim>\<open>www.example.com\<close> the whole match, prefix included, is returned:
  the pattern's group leaves the prefix out, but \<^verbatim>\<open>match\<close> with the \<^verbatim>\<open>g\<close> flag yields whole
  matches, and the \<^verbatim>\<open>replace\<close> that follows removes a scheme only.
\<close>

theorem website_keeps_www:
  "website (extractContactInfo src ''www.example.com'' conf) = Some ''www.example.com''
   \<and> website (extractContactInfo src ''www.example.com'' conf) \<noteq> Some ''example.com''"
proof -
  have r: "replaceFirst schemeRegex [] ''www.example.com'' = ''www.example.com''"
    by code_simp
  show ?thesis
    by (simp add: extractContactInfo_def websites_www_example first_def r)
qed

text \<open>
  Claim C4. The claim is that a keyword line takes priority over the positional fallback.
  The callback is one disjunction, tried line by line: when some line that is not skipped
  carries a keyword (line \<open>j\<close>), the company is the first line, at or before \<open>j\<close>, that is
  not skipped and either carries a keyword or is title case among the first five lines;
  it is line \<open>j\<close> exactly when no earlier line passes the callback. On the card
  \<^verbatim>\<open>Hello world\<close> / \<^verbatim>\<open>Acme Inc.\<close> the company is \<^verbatim>\<open>Hello world\<close>.
\<close>

theorem company_first_eligible_line:
  assumes "j < length (lines text)"
    and "\<not> companySkips text (lines text ! j)"
    and "hasCompanyKeyword (lines text ! j)"
  shows "\<exists>i. i \<le> j
           \<and> companyCandidate text = Some (i, lines text ! i)
           \<and> \<not> companySkips text (lines text ! i)
           \<and> (hasCompanyKeyword (lines text ! i) \<or> (isProperCase (lines text ! i) \<and> i < 5))
           \<and> (\<forall>k<i. \<not> isCompany text (lines text ! k) k)
           \<and> ((i = j) = (\<forall>k<j. \<not> isCompany text (lines text ! k) k))"
proof -
  from assms(2,3) have cj: "isCompany text (lines text ! j) j" by (simp add: isCompany_def)
  with assms(1) have "find_js (isCompany text) (lines text) \<noteq> None"
    by (auto simp: find_js_None)
  then obtain i x where ix: "find_js (isCompany text) (lines text) = Some (i, x)" by auto
  from find_js_Some [OF ix] have i: "i < length (lines text)" "x = lines text ! i"
    "isCompany text x i" "\<forall>k<i. \<not> isCompany text (lines text ! k) k" by auto
  from i(4) cj have le: "i \<le> j" by (meson not_le)
  from i(2,3) have ok: "\<not> companySkips text (lines text ! i)"
    "hasCompanyKeyword (lines text ! i) \<or> (isProperCase (lines text ! i) \<and> i < 5)"
    by (auto simp: isCompany_def split: if_splits)
  have eq: "(i = j) = (\<forall>k<j. \<not> isCompany text (lines text ! k) k)"
  proof
    assume "i = j" with i(4) show "\<forall>k<j. \<not> isCompany text (lines text ! k) k" by simp
  next
    assume "\<forall>k<j. \<not> isCompany text (lines text ! k) k"
    with i(2,3) have "\<not> i < j" by auto
    with le show "i = j" by simp
  qed
  from le ix i(2) ok i(4) eq show ?thesis
    unfolding companyCandidate_def by blast
qed

theorem company_first_eligible_line_witness:
  "1 < length (lines janeCard)
   \<and> \<not> companySkips janeCard (lines janeCard ! 1)
   \<and> hasCompanyKeyword (lines janeCard ! 1)
   \<and> companyCandidate janeCard = Some (1, lines janeCard ! 1)
   \<and> \<not> isCompany janeCard (lines janeCard ! 0) 0"
proof -
  have a: "1 < length (lines janeCard)" by (simp add: jane_lines)
  have b: "\<not> companySkips janeCard (lines janeCard ! 1)" by (simp add: jane_lines jane_not_skipped)
  have c: "hasCompanyKeyword (lines janeCard ! 1)" by (simp add: jane_lines jane_keyword)
  have d: "\<forall>k<1. \<not> isCompany janeCard (lines janeCard ! k) k"
    by (simp add: jane_lines jane_name_skipped)
  from company_first_eligible_line [OF a b c] d
  have "companyCandidate janeCard = Some (1, lines janeCard ! 1)" by auto
  with a b c d show ?thesis by simp
qed

theorem positional_fallback_beats_keyword:
  "lines helloCard = [''Hello world'', ''Acme Inc.'']
   \<and> hasCompanyKeyword ''Acme Inc.''
   \<and> \<not> companySkips helloCard ''Acme Inc.''
   \<and> \<not> hasCompanyKeyword ''Hello world''
   \<and> companyCandidate helloCard = Some (0, ''Hello world'')
   \<and> company (extractContactInfo Camera helloCard None) = Some ''Hello world''"
proof -
  have a: "hasCompanyKeyword ''Acme Inc.''" by code_simp
  have b: "\<not> companySkips helloCard ''Acme Inc.''"
    unfolding companySkips_def hello_name hello_emails hello_phones by code_simp
  have c: "\<not> hasCompanyKeyword ''Hello world''" by code_simp
  have t: "trim ''Hello world'' = ''Hello world''" by code_simp
  have d: "company (extractContactInfo Camera helloCard None) = Some ''Hello world''"
    by (simp add: extractContactInfo_def hello_company trimmedLine_def t)
  from hello_lines a b c hello_company d show ?thesis by blast
qed

text \<open>
  Claim C5. Whenever the \<open>email\<close> field is set, it is the lower-cased form of the earliest
  match of the email pattern in the normalized text: the match sits at \<open>mt\<close> in
  \<open>cleanText text = pre @ mt @ post\<close>, the pattern matches at no earlier position, \<open>mt\<close> is
  the match the engine picks there, and the field has no upper-case letter left. The
  input \<^verbatim>\<open>Contact: JOHN@Example.COM for info\<close> yields \<^verbatim>\<open>john@example.com\<close>.
\<close>

theorem email_lowercased:
  "(email (extractContactInfo src text conf) = Some e \<longrightarrow>
      (\<exists>pre mt post.
          cleanText text = pre @ mt @ post
        \<and> (\<forall>k<length pre. m (length (cleanText text)) emailRegex (drop k (cleanText text)) = [])
        \<and> m (length (cleanText text)) emailRegex (mt @ post) \<noteq> []
        \<and> hd (m (length (cleanText text)) emailRegex (mt @ post)) = post
        \<and> e = toLowerCase mt)
      \<and> (\<forall>c\<in>set e. \<not> isUpper c))
   \<and> email (extractContactInfo src ''Contact: JOHN@Example.COM for info'' conf)
       = Some ''john@example.com''"
proof (intro conjI impI)
  assume "email (extractContactInfo src text conf) = Some e"
  then obtain mt where mt: "first (emails text) = Some mt" "e = toLowerCase mt"
    by (auto simp: extractContactInfo_def)
  from first_match_g_Some [of emailRegex "cleanText text" mt] mt(1)
  obtain pre post where "cleanText text = pre @ mt @ post"
    "\<forall>k<length pre. m (length (cleanText text)) emailRegex (drop k (cleanText text)) = []"
    "m (length (cleanText text)) emailRegex (mt @ post) \<noteq> []"
    "hd (m (length (cleanText text)) emailRegex (mt @ post)) = post"
    unfolding emails_def by blast
  with mt(2) show "\<exists>pre mt post.
          cleanText text = pre @ mt @ post
        \<and> (\<forall>k<length pre. m (length (cleanText text)) emailRegex (drop k (cleanText text)) = [])
        \<and> m (length (cleanText text)) emailRegex (mt @ post) \<noteq> []
        \<and> hd (m (length (cleanText text)) emailRegex (mt @ post)) = post
        \<and> e = toLowerCase mt" by blast
  show "\<forall>c\<in>set e. \<not> isUpper c"
    using mt(2) by (auto simp: toLowerCase_def toLowerChar_not_upper)
next
  have l: "toLowerCase ''JOHN@Example.COM'' = ''john@example.com''" by code_simp
  show "email (extractContactInfo src ''Contact: JOHN@Example.COM for info'' conf)
       = Some ''john@example.com''"
    by (simp add: extractContactInfo_def emails_contact_john first_def l)
qed

theorem email_lowercased_witness:
  "email (extractContactInfo Camera ''Contact: JOHN@Example.COM for info'' None)
     = Some ''john@example.com''
   \<and> (\<exists>pre mt post.
          cleanText ''Contact: JOHN@Example.COM for info'' = pre @ mt @ post
        \<and> hd (m (length (cleanText ''Contact: JOHN@Example.COM for info'')) emailRegex (mt @ post))
            = post
        \<and> ''john@example.com'' = toLowerCase mt)
   \<and> \<not> isUpper CHR ''j''"
proof -
  note t = email_lowercased [of Camera "''Contact: JOHN@Example.COM for info''" None
      "''john@example.com''"]
  from t have a: "email (extractContactInfo Camera ''Contact: JOHN@Example.COM for info'' None)
     = Some ''john@example.com''" by blast
  from t a have b: "\<exists>pre mt post.
          cleanText ''Contact: JOHN@Example.COM for info'' = pre @ mt @ post
        \<and> hd (m (length (cleanText ''Contact: JOHN@Example.COM for info'')) emailRegex (mt @ post))
            = post
        \<and> ''john@example.com'' = toLowerCase mt" by blast
  from t a have "\<forall>c\<in>set ''john@example.com''. \<not> isUpper c" by blast
  then have c: "\<not> isUpper CHR ''j''" by simp
  from a b c show ?thesis by blast
qed

text \<open>
  Claim C6. Whenever the \<open>phone\<close> field is set, it is the earliest match \<open>mt\<close> of the phone
  pattern in the normalized text with everything but digits and \<^verbatim>\<open>+\<close> removed, and it
  consists of digits, after at most one leading \<^verbatim>\<open>+\<close>. The input \<^verbatim>\<open>+1 (415) 555-0132\<close>
  yields \<^verbatim>\<open>+14155550132\<close>.
\<close>

theorem phone_digits_and_leading_plus:
  "(phone (extractContactInfo src text conf) = Some p \<longrightarrow>
      (\<exists>pre mt post ds.
          cleanText text = pre @ mt @ post
        \<and> (\<forall>k<length pre. m (length (cleanText text)) phoneRegex (drop k (cleanText text)) = [])
        \<and> m (length (cleanText text)) phoneRegex (mt @ post) \<noteq> []
        \<and> hd (m (length (cleanText text)) phoneRegex (mt @ post)) = post
        \<and> p = filter (\<lambda>c. isDigit c \<or> c = CHR ''+'') mt
        \<and> (p = ds \<or> p = CHR ''+'' # ds)
        \<and> (\<forall>c\<in>set ds. isDigit c)))
   \<and> phone (extractContactInfo src ''+1 (415) 555-0132'' conf) = Some ''+14155550132''"
proof (intro conjI impI)
  assume "phone (extractContactInfo src text conf) = Some p"
  then obtain mt where mt: "first (phones text) = Some mt"
    "p = filter (\<lambda>c. isDigit c \<or> c = CHR ''+'') mt"
    by (auto simp: extractContactInfo_def cleanPhone_def)
  from first_match_g_Some [of phoneRegex "cleanText text" mt] mt(1)
  obtain pre post where pp: "cleanText text = pre @ mt @ post"
    "\<forall>k<length pre. m (length (cleanText text)) phoneRegex (drop k (cleanText text)) = []"
    "m (length (cleanText text)) phoneRegex (mt @ post) \<noteq> []"
    "hd (m (length (cleanText text)) phoneRegex (mt @ post)) = post"
    unfolding phones_def by blast
  from pp(3,4) have "post \<in> set (m (length (cleanText text)) phoneRegex (mt @ post))"
    by (metis hd_in_set)
  from phone_match_shape [OF this] obtain u where
    u: "mt @ post = u @ post \<or> mt @ post = CHR ''+'' # u @ post" "\<forall>c\<in>set u. c \<noteq> CHR ''+''"
    by blast
  from u(1) have "mt = u \<or> mt = CHR ''+'' # u" by auto
  with mt(2) filter_no_plus [OF u(2)]
  have "p = filter isDigit u \<or> p = CHR ''+'' # filter isDigit u" by auto
  moreover have "\<forall>c\<in>set (filter isDigit u). isDigit c" by simp
  ultimately have "\<exists>ds. (p = ds \<or> p = CHR ''+'' # ds) \<and> (\<forall>c\<in>set ds. isDigit c)" by blast
  with pp mt(2) show "\<exists>pre mt post ds.
          cleanText text = pre @ mt @ post
        \<and> (\<forall>k<length pre. m (length (cleanText text)) phoneRegex (drop k (cleanText text)) = [])
        \<and> m (length (cleanText text)) phoneRegex (mt @ post) \<noteq> []
        \<and> hd (m (length (cleanText text)) phoneRegex (mt @ post)) = post
        \<and> p = filter (\<lambda>c. isDigit c \<or> c = CHR ''+'') mt
        \<and> (p = ds \<or> p = CHR ''+'' # ds)
        \<and> (\<forall>c\<in>set ds. isDigit c)" by blast
next
  have f: "filter (\<lambda>c. isDigit c \<or> c = CHR ''+'') ''+1 (415) 555-0132'' = ''+14155550132''"
    by code_simp
  show "phone (extractContactInfo src ''+1 (415) 555-0132'' conf) = Some ''+14155550132''"
    unfolding extractContactInfo_def cleanPhone_def usPhone_phones first_def
    by (simp only: ScannedData.simps option.case list.case option.map f)
qed

theorem phone_digits_and_leading_plus_witness:
  "phone (extractContactInfo Camera ''+1 (415) 555-0132'' None) = Some ''+14155550132''
   \<and> (\<exists>mt ds. ''+14155550132'' = filter (\<lambda>c. isDigit c \<or> c = CHR ''+'') mt
          \<and> (''+14155550132'' = ds \<or> ''+14155550132'' = CHR ''+'' # ds)
          \<and> (\<forall>c\<in>set ds. isDigit c))"
proof -
  note t = phone_digits_and_leading_plus [of Camera "''+1 (415) 555-0132''" None "''+14155550132''"]
  from t have a: "phone (extractContactInfo Camera ''+1 (415) 555-0132'' None) = Some ''+14155550132''"
    by blast
  from t a have "\<exists>mt ds. ''+14155550132'' = filter (\<lambda>c. isDigit c \<or> c = CHR ''+'') mt
          \<and> (''+14155550132'' = ds \<or> ''+14155550132'' = CHR ''+'' # ds)
          \<and> (\<forall>c\<in>set ds. isDigit c)" by blast
  with a show ?thesis by blast
qed

text \<open>
  Claim C7. The claim is that on a remote failure the scan goes on with the local engine's
  text and its confidence divided by 100, and that the caller receives no indication of
  the fallback. When the remote call raises, has no data or reports no success, the scan
  calls the local engine on the same image: it fails if the local engine raises or its
  trimmed text is shorter than 3, and otherwise hands over the record of that text, whose
  \<open>raw_text\<close> is the local text and whose \<open>confidence\<close> is the local confidence over 100.
  The outcome tells nothing about the fallback when the local confidence is not 0: a
  remote success with the same text and the same confidence ends in the same outcome. At
  local confidence 0 the record carries confidence 0, which no remote success carries
  (\<^verbatim>\<open>confidence || 0.8\<close>).
\<close>

theorem fallback_is_transparent:
  assumes "img \<noteq> []"
    and "(\<exists>err. vision img = Raises err) \<or> vision img = Returns None
         \<or> (\<exists>d. vision img = Returns (Some d) \<and> \<not> ocr_success d)"
  shows "processImage vision tesseract src (Some img) =
           \<lparr> calls = [InvokeVisionOcr img, TesseractRecognize img ''eng''],
             outcome =
               (case tesseract img ''eng'' of
                  Raises err \<Rightarrow> ScanFailed (errorMessage err)
                | Returns r \<Rightarrow>
                    if length (trim (tess_text r)) < 3 then ScanFailed noTextMessage
                    else ScanComplete
                           (extractContactInfo src (tess_text r) (Some (tess_confidence r / 100)))) \<rparr>
         \<and> (\<forall>r. tesseract img ''eng'' = Returns r \<and> 3 \<le> length (trim (tess_text r)) \<longrightarrow>
               (\<exists>data. outcome (processImage vision tesseract src (Some img)) = ScanComplete data
                  \<and> raw_text data = tess_text r
                  \<and> confidence data = Some (tess_confidence r / 100))
               \<and> (\<forall>vision' tesseract' d.
                     vision' img = Returns (Some d) \<and> ocr_success d
                     \<and> ocr_text d = Some (tess_text r)
                     \<and> ocr_confidence d = Some (tess_confidence r / 100)
                     \<and> tess_confidence r \<noteq> 0
                     \<longrightarrow> outcome (processImage vision' tesseract' src (Some img))
                         = outcome (processImage vision tesseract src (Some img))))"
proof -
  have rt: "readText vision tesseract img = useTesseract tesseract img"
    using assms(2) by (rule readText_fallback [of vision img tesseract])
  have main: "processImage vision tesseract src (Some img) =
           \<lparr> calls = [InvokeVisionOcr img, TesseractRecognize img ''eng''],
             outcome =
               (case tesseract img ''eng'' of
                  Raises err \<Rightarrow> ScanFailed (errorMessage err)
                | Returns r \<Rightarrow>
                    if length (trim (tess_text r)) < 3 then ScanFailed noTextMessage
                    else ScanComplete
                           (extractContactInfo src (tess_text r) (Some (tess_confidence r / 100)))) \<rparr>"
    using assms(1)
    by (cases "tesseract img ''eng''")
      (auto simp: processImage_def rt useTesseract_def trim_Nil)
  have rest: "(\<exists>data. outcome (processImage vision tesseract src (Some img)) = ScanComplete data
                  \<and> raw_text data = tess_text r
                  \<and> confidence data = Some (tess_confidence r / 100))
               \<and> (\<forall>vision' tesseract' d.
                     vision' img = Returns (Some d) \<and> ocr_success d
                     \<and> ocr_text d = Some (tess_text r)
                     \<and> ocr_confidence d = Some (tess_confidence r / 100)
                     \<and> tess_confidence r \<noteq> 0
                     \<longrightarrow> outcome (processImage vision' tesseract' src (Some img))
                         = outcome (processImage vision tesseract src (Some img)))"
    if r: "tesseract img ''eng'' = Returns r" "3 \<le> length (trim (tess_text r))" for r
  proof -
    from r have o: "outcome (processImage vision tesseract src (Some img)) =
        ScanComplete (extractContactInfo src (tess_text r) (Some (tess_confidence r / 100)))"
      by (simp add: main)
    have nonempty: "tess_text r \<noteq> []" using r(2) by (auto simp: trim_Nil)
    have "outcome (processImage vision' tesseract' src (Some img))
            = outcome (processImage vision tesseract src (Some img))"
      if v: "vision' img = Returns (Some d)" "ocr_success d" "ocr_text d = Some (tess_text r)"
        "ocr_confidence d = Some (tess_confidence r / 100)" "tess_confidence r \<noteq> 0"
      for vision' tesseract' d
    proof -
      have "outcome (processImage vision' tesseract' src (Some img)) =
          ScanComplete (extractContactInfo src (tess_text r) (Some (tess_confidence r / 100)))"
        using v assms(1) r(2) nonempty
        by (simp add: processImage_def readText_def orElse_def)
      then show ?thesis by (simp only: o)
    qed
    with o show ?thesis by (auto simp: extractContactInfo_def)
  qed
  from main rest show ?thesis by blast
qed

theorem fallback_is_transparent_witness:
  "processImage (\<lambda>img. Raises (Error ''Failed to fetch''))
       (\<lambda>img lang. Returns \<lparr> tess_text = ''Jane Doe'', tess_confidence = 87 \<rparr>)
       Camera (Some ''data:image/jpeg;base64,AAAA'')
     = \<lparr> calls = [InvokeVisionOcr ''data:image/jpeg;base64,AAAA'',
                   TesseractRecognize ''data:image/jpeg;base64,AAAA'' ''eng''],
         outcome = ScanComplete (extractContactInfo Camera ''Jane Doe'' (Some (87 / 100))) \<rparr>
   \<and> confidence (extractContactInfo Camera ''Jane Doe'' (Some (87 / 100))) = Some 0.87
   \<and> outcome (processImage
        (\<lambda>img. Returns (Some \<lparr> ocr_success = True, ocr_text = Some ''Jane Doe'',
                                   ocr_confidence = Some (87 / 100), ocr_error = None \<rparr>))
        (\<lambda>img lang. Raises NonError)
        Camera (Some ''data:image/jpeg;base64,AAAA''))
      = ScanComplete (extractContactInfo Camera ''Jane Doe'' (Some (87 / 100)))"
proof -
  have t: "trim ''Jane Doe'' = ''Jane Doe''" by code_simp
  have a: "''data:image/jpeg;base64,AAAA'' \<noteq> []" by simp
  have b: "(\<exists>err. (\<lambda>img. Raises (Error ''Failed to fetch'') :: vision_data option attempt)
                ''data:image/jpeg;base64,AAAA'' = Raises err)
           \<or> (\<lambda>img. Raises (Error ''Failed to fetch'') :: vision_data option attempt)
                ''data:image/jpeg;base64,AAAA'' = Returns None
           \<or> (\<exists>d. (\<lambda>img. Raises (Error ''Failed to fetch'') :: vision_data option attempt)
                ''data:image/jpeg;base64,AAAA'' = Returns (Some d) \<and> \<not> ocr_success d)"
    by simp
  note th = fallback_is_transparent [OF a b,
      of "\<lambda>img lang. Returns \<lparr> tess_text = ''Jane Doe'', tess_confidence = 87 \<rparr>" Camera]
  from th have run: "processImage (\<lambda>img. Raises (Error ''Failed to fetch''))
       (\<lambda>img lang. Returns \<lparr> tess_text = ''Jane Doe'', tess_confidence = 87 \<rparr>)
       Camera (Some ''data:image/jpeg;base64,AAAA'')
     = \<lparr> calls = [InvokeVisionOcr ''data:image/jpeg;base64,AAAA'',
                   TesseractRecognize ''data:image/jpeg;base64,AAAA'' ''eng''],
         outcome = ScanComplete (extractContactInfo Camera ''Jane Doe'' (Some (87 / 100))) \<rparr>"
    by (simp add: t)
  from th have "\<forall>vision' tesseract' d.
         vision' ''data:image/jpeg;base64,AAAA'' = Returns (Some d) \<and> ocr_success d
         \<and> ocr_text d = Some ''Jane Doe'' \<and> ocr_confidence d = Some (87 / 100)
         \<longrightarrow> outcome (processImage vision' tesseract' Camera (Some ''data:image/jpeg;base64,AAAA''))
             = outcome (processImage (\<lambda>img. Raises (Error ''Failed to fetch''))
                 (\<lambda>img lang. Returns \<lparr> tess_text = ''Jane Doe'', tess_confidence = 87 \<rparr>)
                 Camera (Some ''data:image/jpeg;base64,AAAA''))"
    by (simp add: t)
  then have same: "outcome (processImage
        (\<lambda>img. Returns (Some \<lparr> ocr_success = True, ocr_text = Some ''Jane Doe'',
                                   ocr_confidence = Some (87 / 100), ocr_error = None \<rparr>))
        (\<lambda>img lang. Raises NonError)
        Camera (Some ''data:image/jpeg;base64,AAAA''))
      = ScanComplete (extractContactInfo Camera ''Jane Doe'' (Some (87 / 100)))"
    by (simp add: run)
  from run same show ?thesis by (simp add: extractContactInfo_def)
qed

theorem zero_confidence_reveals_fallback:
  "outcome (processImage (\<lambda>img. Raises (Error ''Failed to fetch''))
       (\<lambda>img lang. Returns \<lparr> tess_text = ''Jane Doe'', tess_confidence = 0 \<rparr>)
       Camera (Some ''data:image/jpeg;base64,AAAA''))
     = ScanComplete (extractContactInfo Camera ''Jane Doe'' (Some 0))
   \<and> confidence (extractContactInfo Camera ''Jane Doe'' (Some 0)) = Some 0
   \<and> \<not> (\<exists>vision tesseract src img d data.
          vision img = Returns (Some d) \<and> ocr_success d
          \<and> outcome (processImage vision tesseract src (Some img)) = ScanComplete data
          \<and> confidence data = Some 0)"
proof -
  have t: "trim ''Jane Doe'' = ''Jane Doe''" by code_simp
  have a: "outcome (processImage (\<lambda>img. Raises (Error ''Failed to fetch''))
       (\<lambda>img lang. Returns \<lparr> tess_text = ''Jane Doe'', tess_confidence = 0 \<rparr>)
       Camera (Some ''data:image/jpeg;base64,AAAA''))
     = ScanComplete (extractContactInfo Camera ''Jane Doe'' (Some 0))"
    by (simp add: processImage_def readText_def useTesseract_def t)
  have b: "confidence (extractContactInfo Camera ''Jane Doe'' (Some 0)) = Some 0"
    by (simp add: extractContactInfo_def)
  have c: "\<not> (\<exists>vision tesseract src img d data.
          vision img = Returns (Some d) \<and> ocr_success d
          \<and> outcome (processImage vision tesseract src (Some img)) = ScanComplete data
          \<and> confidence data = Some 0)"
  proof
    assume "\<exists>vision tesseract src img d data.
          vision img = Returns (Some d) \<and> ocr_success d
          \<and> outcome (processImage vision tesseract src (Some img)) = ScanComplete data
          \<and> confidence data = Some 0"
    then obtain vision :: "string \<Rightarrow> vision_data option attempt"
      and tesseract :: "string \<Rightarrow> string \<Rightarrow> tesseract_data attempt"
      and src img d data where
      h: "vision img = Returns (Some d)" "ocr_success d"
         "outcome (processImage vision tesseract src (Some img)) = ScanComplete data"
         "confidence data = Some 0" by blast
    from remote_success_confidence [OF h(1-3)] h(4) orElse_nonzero [of "ocr_confidence d"]
    show False by simp
  qed
  from a b c show ?thesis by blast
qed

text \<open>
  Claim C8. \<open>extractContactInfo\<close> has no failing branch: the source has no \<^verbatim>\<open>throw\<close> and
  reads every possibly-null match list through \<^verbatim>\<open>?.\<close>, so the model is a total function
  into the record. For every text the record carries the text, the source and the
  confidence; when no pattern matches and no line passes any of the four callbacks every
  optional field is unset; the empty text yields the all-unset record.
\<close>

theorem classify_never_fails:
  "raw_text (extractContactInfo src text conf) = text
   \<and> source (extractContactInfo src text conf) = src
   \<and> confidence (extractContactInfo src text conf) = conf
   \<and> (emails text = None \<and> phones text = None \<and> websites text = None
       \<and> (\<forall>i<length (lines text).
             \<not> isName text (lines text ! i) i \<and> \<not> isCompany text (lines text ! i) i
             \<and> \<not> isJobTitle text (lines text ! i) i \<and> \<not> isAddress text (lines text ! i) i)
       \<longrightarrow> extractContactInfo src text conf =
             \<lparr> name = None, phone = None, email = None, company = None, job_title = None,
               website = None, location = None, raw_text = text, source = src,
               confidence = conf \<rparr>)
   \<and> extractContactInfo src [] conf =
         \<lparr> name = None, phone = None, email = None, company = None, job_title = None,
           website = None, location = None, raw_text = [], source = src,
           confidence = conf \<rparr>"
proof (intro conjI impI)
  show "raw_text (extractContactInfo src text conf) = text"
    by (simp add: extractContactInfo_def)
  show "source (extractContactInfo src text conf) = src"
    by (simp add: extractContactInfo_def)
  show "confidence (extractContactInfo src text conf) = conf"
    by (simp add: extractContactInfo_def)
next
  assume h: "emails text = None \<and> phones text = None \<and> websites text = None
       \<and> (\<forall>i<length (lines text).
             \<not> isName text (lines text ! i) i \<and> \<not> isCompany text (lines text ! i) i
             \<and> \<not> isJobTitle text (lines text ! i) i \<and> \<not> isAddress text (lines text ! i) i)"
  then show "extractContactInfo src text conf =
             \<lparr> name = None, phone = None, email = None, company = None, job_title = None,
               website = None, location = None, raw_text = text, source = src,
               confidence = conf \<rparr>"
    by (intro all_unset) blast+
next
  show "extractContactInfo src [] conf =
         \<lparr> name = None, phone = None, email = None, company = None, job_title = None,
           website = None, location = None, raw_text = [], source = src,
           confidence = conf \<rparr>"
    by (intro all_unset) (simp_all add: empty_emails empty_phones empty_websites empty_lines)
qed

theorem classify_never_fails_witness:
  "emails ''??'' = None \<and> phones ''??'' = None \<and> websites ''??'' = None
   \<and> lines ''??'' = [''??'']
   \<and> \<not> isName ''??'' ''??'' 0 \<and> \<not> isCompany ''??'' ''??'' 0
   \<and> \<not> isJobTitle ''??'' ''??'' 0 \<and> \<not> isAddress ''??'' ''??'' 0
   \<and> extractContactInfo Upload ''??'' (Some 0.5) =
         \<lparr> name = None, phone = None, email = None, company = None, job_title = None,
           website = None, location = None, raw_text = ''??'', source = Upload,
           confidence = Some 0.5 \<rparr>"
proof -
  have "\<forall>i<length (lines ''??'').
          \<not> isName ''??'' (lines ''??'' ! i) i \<and> \<not> isCompany ''??'' (lines ''??'' ! i) i
          \<and> \<not> isJobTitle ''??'' (lines ''??'' ! i) i \<and> \<not> isAddress ''??'' (lines ''??'' ! i) i"
    by (simp add: garbage_lines garbage_name garbage_company garbage_title garbage_address)
  with classify_never_fails [of Upload "''??''" "Some 0.5"]
    garbage_emails garbage_phones garbage_websites
  have "extractContactInfo Upload ''??'' (Some 0.5) =
         \<lparr> name = None, phone = None, email = None, company = None, job_title = None,
           website = None, location = None, raw_text = ''??'', source = Upload,
           confidence = Some 0.5 \<rparr>" by blast
  with garbage_emails garbage_phones garbage_websites garbage_lines garbage_name
    garbage_company garbage_title garbage_address
  show ?thesis by blast
qed

text \<open>
  Claim C9. When the remote call reports success with a text whose trimmed length is below
  3, the scan fails with the no-text message after the remote call alone: the local engine
  is not called, whatever it would have returned.
\<close>

theorem short_remote_text_skips_fallback:
  assumes "img \<noteq> []"
    and "vision img = Returns (Some d)"
    and "ocr_success d"
    and "ocr_text d = Some t"
    and "length (trim t) < 3"
  shows "processImage vision tesseract src (Some img) =
           \<lparr> calls = [InvokeVisionOcr img], outcome = ScanFailed noTextMessage \<rparr>"
  using assms by (simp add: processImage_def readText_def)

theorem short_remote_text_skips_fallback_witness:
  "ocr_success (snd (visionOcr (Some ''key'') (Returns (Some \<lparr> description = ''ab'', score = None \<rparr>))))
   \<and> ocr_text (snd (visionOcr (Some ''key'') (Returns (Some \<lparr> description = ''ab'', score = None \<rparr>))))
       = Some ''ab''
   \<and> length (trim ''ab'') < 3
   \<and> processImage
        (\<lambda>img. Returns (Some (snd (visionOcr (Some ''key'')
                  (Returns (Some \<lparr> description = ''ab'', score = None \<rparr>))))))
        (\<lambda>img lang. Returns \<lparr> tess_text = ''Jane Doe'', tess_confidence = 87 \<rparr>)
        Camera (Some ''data:image/jpeg;base64,AAAA'')
      = \<lparr> calls = [InvokeVisionOcr ''data:image/jpeg;base64,AAAA''],
          outcome = ScanFailed noTextMessage \<rparr>"
proof -
  have a: "''data:image/jpeg;base64,AAAA'' \<noteq> []" by simp
  have c: "ocr_success (snd (visionOcr (Some ''key'')
             (Returns (Some \<lparr> description = ''ab'', score = None \<rparr>))))"
    by (simp add: visionOcr_def)
  have d: "ocr_text (snd (visionOcr (Some ''key'')
             (Returns (Some \<lparr> description = ''ab'', score = None \<rparr>)))) = Some ''ab''"
    by (simp add: visionOcr_def)
  have e: "length (trim ''ab'') < 3" by code_simp
  from short_remote_text_skips_fallback [OF a _ c d e,
      of "\<lambda>img. Returns (Some (snd (visionOcr (Some ''key'')
                  (Returns (Some \<lparr> description = ''ab'', score = None \<rparr>)))))"
         "\<lambda>img lang. Returns \<lparr> tess_text = ''Jane Doe'', tess_confidence = 87 \<rparr>" Camera]
  have "processImage
        (\<lambda>img. Returns (Some (snd (visionOcr (Some ''key'')
                  (Returns (Some \<lparr> description = ''ab'', score = None \<rparr>))))))
        (\<lambda>img lang. Returns \<lparr> tess_text = ''Jane Doe'', tess_confidence = 87 \<rparr>)
        Camera (Some ''data:image/jpeg;base64,AAAA'')
      = \<lparr> calls = [InvokeVisionOcr ''data:image/jpeg;base64,AAAA''],
          outcome = ScanFailed noTextMessage \<rparr>"
    by simp
  with c d e show ?thesis by blast
qed

text \<open>
  Claim C10. The claim is that an extracted email whose domain's first label has at least 3
  characters, with no website match before it, makes \<open>website\<close> the domain of that email.
  On \<^verbatim>\<open>john@mail.example.com\<close> the website is \<^verbatim>\<open>mail.example\<close>: the website pattern has one
  dot. The claim holds for a domain of two labels: when the extracted email is the address
  \<open>loc@label.tld\<close> of the normalized text (the email pattern matches at no earlier position
  and the engine's match there is this address), the label has 3 to 63 letters, digits or
  hyphens and starts and ends with a letter or digit, the top-level domain is letters, and
  the website pattern matches at no position before the label, then \<open>email\<close> is the
  lower-cased address and \<open>website\<close> is \<open>label.tld\<close> as written in the normalized text,
  whatever follows the address.
\<close>

theorem website_is_two_label_email_domain:
  assumes located: "cleanText text = pre @ loc @ ''@'' @ label @ ''.'' @ tld @ post"
    and leftmost: "\<forall>k<length pre.
                     m (length (cleanText text)) emailRegex (drop k (cleanText text)) = []"
    and picked: "m (length (cleanText text)) emailRegex (loc @ ''@'' @ label @ ''.'' @ tld @ post) \<noteq> []"
      "hd (m (length (cleanText text)) emailRegex (loc @ ''@'' @ label @ ''.'' @ tld @ post)) = post"
    and label: "3 \<le> length label" "length label \<le> 63" "isAlnum (hd label)"
      "isAlnum (last label)" "\<forall>c\<in>set label. labelChar c"
    and tld: "\<forall>c\<in>set tld. isAlpha c"
    and earlier: "\<forall>k<length pre + length loc + 1.
                    m (length (cleanText text)) websiteRegex (drop k (cleanText text)) = []"
  shows "email (extractContactInfo src text conf)
           = Some (toLowerCase (loc @ ''@'' @ label @ ''.'' @ tld))
       \<and> website (extractContactInfo src text conf) = Some (label @ ''.'' @ tld)"
proof -
  let ?n = "length (cleanText text)"
  let ?a = "hd label" and ?mid = "butlast (tl label)" and ?z = "last label"
  let ?d = "?a # ?mid @ ?z # CHR ''.'' # tld @ post"
  let ?pre = "pre @ loc @ ''@''"
  let ?mt = "loc @ ''@'' @ label @ ''.'' @ tld"
  \<comment> \<open>the email\<close>
  have cl: "cleanText text = pre @ (?mt @ post)" using located by simp
  have lm: "\<forall>k<length pre. m ?n emailRegex (drop k (pre @ (?mt @ post))) = []"
    using leftmost unfolding cl .
  have pk: "m ?n emailRegex (?mt @ post) \<noteq> []" "hd (m ?n emailRegex (?mt @ post)) = post"
    using picked by simp_all
  from exec_at [OF lm pk(1)] pk(2)
  have "exec ?n emailRegex (pre @ (?mt @ post)) = Some (?mt @ post, post)" by simp
  then have exm: "exec ?n emailRegex (cleanText text) = Some (?mt @ post, post)"
    unfolding cl .
  have "matched (?mt @ post) post = ?mt" by (simp add: matched_def)
  with exm have "first (emails text) = Some ?mt"
    unfolding emails_def first_match_g by simp
  then have em: "email (extractContactInfo src text conf) = Some (toLowerCase ?mt)"
    by (simp add: extractContactInfo_def)
  \<comment> \<open>the website\<close>
  note pick = email_pick [OF picked label(5) tld]
  from pick have tld2: "2 \<le> length tld" and post: "post = [] \<or> \<not> isAlpha (hd post)" by blast+
  from pick have longer: "\<forall>j. length label < j
                   \<and> j \<le> length (takeWhile emailDomainChar (label @ ''.'' @ tld @ post))
                 \<longrightarrow> m ?n (Seq (lit ''.'') (Many isAlpha 2 None))
                       (drop j (label @ ''.'' @ tld @ post)) = []" by blast
  note after = domain_fails_after_pick [OF label(5) longer]
  from label_split [OF label(1)] have ls: "label = ?a # ?mid @ [?z]"
    "1 \<le> length ?mid" "length ?mid = length label - 2" by auto
  have d: "label @ ''.'' @ tld @ post = ?d"
    by (subst ls(1)) simp
  have clean: "cleanText text = ?pre @ ?d"
    using located d by simp
  have mid: "\<forall>c\<in>set ?mid. labelChar c"
  proof
    fix c assume "c \<in> set ?mid"
    then have "c \<in> set (tl label)" by (rule in_set_butlastD)
    then have "c \<in> set label" by (metis list.sel(2) list.set_sel(2))
    with label(5) show "labelChar c" by blast
  qed
  have mid61: "length ?mid \<le> 61" using ls(3) label(2) by simp
  have "set post \<subseteq> set (cleanText text)" using located by auto
  then have colon: "\<forall>c\<in>set post. c \<noteq> CHR '':''"
    by (auto dest!: cleanText_keep keepChar_not_colon)
  note at = website_at_picked_domain [OF label(3) mid ls(2) mid61 label(4) tld tld2 post after colon]
  have before: "\<forall>k<length ?pre. m ?n websiteRegex (drop k (?pre @ ?d)) = []"
    using earlier unfolding clean by simp
  from exec_at [OF before] at
  have "exec ?n websiteRegex (?pre @ ?d) = Some (?d, post)" by simp
  then have ex: "exec ?n websiteRegex (cleanText text) = Some (?d, post)"
    unfolding clean .
  have "matched ?d post = label @ ''.'' @ tld"
    unfolding d [symmetric] by (simp add: matched_def)
  with ex have first: "first (websites text) = Some (label @ ''.'' @ tld)"
    unfolding websites_def first_match_g by simp
  have alpha_colon: "\<And>c. isAlpha c \<Longrightarrow> c \<noteq> CHR '':''"
    by (auto simp: isAlpha_def isLower_def isUpper_def code_def)
  have label_colon: "\<And>c. labelChar c \<Longrightarrow> c \<noteq> CHR '':''"
    by (auto simp: labelChar_def isAlnum_def isAlpha_def isLower_def isUpper_def isDigit_def code_def)
  have "\<forall>c\<in>set (label @ ''.'' @ tld). c \<noteq> CHR '':''"
    using label(5) tld by (auto dest: alpha_colon label_colon)
  from scheme_replace_id [OF this] first
  have "website (extractContactInfo src text conf) = Some (label @ ''.'' @ tld)"
    by (simp add: extractContactInfo_def)
  with em show ?thesis by blast
qed

theorem website_is_two_label_email_domain_witness:
  "cleanText ''Mail jane@acme.com. Thanks''
     = ''Mail '' @ ''jane'' @ ''@'' @ ''acme'' @ ''.'' @ ''com'' @ ''. Thanks''
   \<and> hd (m 26 emailRegex (''jane'' @ ''@'' @ ''acme'' @ ''.'' @ ''com'' @ ''. Thanks'')) = ''. Thanks''
   \<and> isAlnum (hd ''acme'') \<and> isAlnum (last ''acme'')
   \<and> email (extractContactInfo Camera ''Mail jane@acme.com. Thanks'' None) = Some ''jane@acme.com''
   \<and> website (extractContactInfo Camera ''Mail jane@acme.com. Thanks'' None) = Some ''acme.com''"
proof -
  have n: "length (cleanText ''Mail jane@acme.com. Thanks'') = 26"
    unfolding thanks_clean by simp
  have loc: "cleanText ''Mail jane@acme.com. Thanks''
               = ''Mail '' @ ''jane'' @ ''@'' @ ''acme'' @ ''.'' @ ''com'' @ ''. Thanks''"
    by (simp add: thanks_clean)
  have b5: "length ''Mail '' = 5" by simp
  have lm: "\<forall>k<length ''Mail ''.
              m (length (cleanText ''Mail jane@acme.com. Thanks'')) emailRegex
                (drop k (cleanText ''Mail jane@acme.com. Thanks'')) = []"
    unfolding n b5 unfolding thanks_clean by (rule thanks_leftmost)
  have cat: "''jane'' @ ''@'' @ ''acme'' @ ''.'' @ ''com'' @ ''. Thanks'' = ''jane@acme.com. Thanks''"
    by simp
  have p1: "m (length (cleanText ''Mail jane@acme.com. Thanks'')) emailRegex
              (''jane'' @ ''@'' @ ''acme'' @ ''.'' @ ''com'' @ ''. Thanks'') \<noteq> []"
    unfolding n cat by (rule thanks_picked(1))
  have p2: "hd (m (length (cleanText ''Mail jane@acme.com. Thanks'')) emailRegex
              (''jane'' @ ''@'' @ ''acme'' @ ''.'' @ ''com'' @ ''. Thanks'')) = ''. Thanks''"
    unfolding n cat by (rule thanks_picked(2))
  have l1: "3 \<le> length ''acme''" and l2: "length ''acme'' \<le> 63" by simp_all
  have l3: "isAlnum (hd ''acme'')" by code_simp
  have l4: "isAlnum (last ''acme'')" by code_simp
  have l5: "\<forall>c\<in>set ''acme''. labelChar c" by code_simp
  have t: "\<forall>c\<in>set ''com''. isAlpha c" by code_simp
  have b10: "length ''Mail '' + length ''jane'' + 1 = 10" by simp
  have e: "\<forall>k<length ''Mail '' + length ''jane'' + 1.
             m (length (cleanText ''Mail jane@acme.com. Thanks'')) websiteRegex
               (drop k (cleanText ''Mail jane@acme.com. Thanks'')) = []"
    unfolding n b10 unfolding thanks_clean by (rule thanks_earlier)
  have low: "toLowerCase (''jane'' @ ''@'' @ ''acme'' @ ''.'' @ ''com'') = ''jane@acme.com''"
    by code_simp
  from website_is_two_label_email_domain [OF loc lm p1 p2 l1 l2 l3 l4 l5 t e, of Camera None]
  have r: "email (extractContactInfo Camera ''Mail jane@acme.com. Thanks'' None) = Some ''jane@acme.com''"
    "website (extractContactInfo Camera ''Mail jane@acme.com. Thanks'' None) = Some ''acme.com''"
    unfolding low by simp_all
  have p2': "hd (m 26 emailRegex (''jane'' @ ''@'' @ ''acme'' @ ''.'' @ ''com'' @ ''. Thanks'')) = ''. Thanks''"
    unfolding cat by (rule thanks_picked(2))
  from loc p2' l3 l4 r show ?thesis by blast
qed

theorem website_is_not_the_whole_domain:
  "email (extractContactInfo Camera ''john@mail.example.com'' None) = Some ''john@mail.example.com''
   \<and> website (extractContactInfo Camera ''john@mail.example.com'' None) = Some ''mail.example''
   \<and> cleanText ''john@mail.example.com'' = ''john@mail.example.com''
   \<and> m 21 websiteRegex ''john@mail.example.com'' = []
   \<and> m 21 websiteRegex ''ohn@mail.example.com'' = []
   \<and> m 21 websiteRegex ''hn@mail.example.com'' = []
   \<and> m 21 websiteRegex ''n@mail.example.com'' = []
   \<and> m 21 websiteRegex ''@mail.example.com'' = []"
proof -
  have low: "toLowerCase ''john@mail.example.com'' = ''john@mail.example.com''" by code_simp
  have r: "replaceFirst schemeRegex [] ''mail.example'' = ''mail.example''" by code_simp
  have a: "email (extractContactInfo Camera ''john@mail.example.com'' None)
             = Some ''john@mail.example.com''"
    by (simp add: extractContactInfo_def subdomain_emails first_def low)
  have b: "website (extractContactInfo Camera ''john@mail.example.com'' None) = Some ''mail.example''"
    by (simp add: extractContactInfo_def subdomain_websites first_def r)
  have c: "m 21 websiteRegex ''john@mail.example.com'' = []"
    "m 21 websiteRegex ''ohn@mail.example.com'' = []"
    "m 21 websiteRegex ''hn@mail.example.com'' = []"
    "m 21 websiteRegex ''n@mail.example.com'' = []"
    "m 21 websiteRegex ''@mail.example.com'' = []"
    by code_simp+
  from a b subdomain_clean c show ?thesis by blast
qed

end
